theory Spec2Isabelle
  imports Complex_Main "HOL-Library.Multiset"
begin

section \<open>Data model of \<^verbatim>\<open>smatch.c\<close>\<close>

text \<open>
  A finite IEEE double is a rational number, and the comparisons of the C code are exact
  on doubles, so coordinates and cosines are values of type \<open>rat\<close>. The rounding of
  the floating-point multiplications and additions is not modelled; no statement below
  depends on it. A NaN never satisfies the strict test \<^verbatim>\<open>cos_angle > pt->cos_radius\<close>,
  so no NaN is ever stored in a match.

  The signed 64-bit counters (\<^verbatim>\<open>maxmatch\<close>, \<^verbatim>\<open>nmatches\<close>) and the \<^verbatim>\<open>size_t\<close> indices
  are unbounded \<open>int\<close> and \<open>nat\<close>: every one of them is bounded by the number of
  array elements held in memory, far below \<open>2^63\<close>.
\<close>

record Match =
  cat_ind :: int
  input_ind :: int
  cosdist :: rat

record Point =
  pt_x :: rat
  pt_y :: rat
  pt_z :: rat
  radius :: rat
  cos_radius :: rat

type_synonym match_vector = "Match list"

record CatalogEntry =
  point :: Point
  disc_pixels :: "int list"
  matches :: match_vector

record healpix =
  nside :: int
  npix :: int

text \<open>
  Modelled from the spec: \<^verbatim>\<open>tree.h\<close> is not part of the sources. The pixel tree is a
  binary search tree keyed by the shifted pixel id; each node owns the ordered sequence
  of indices inserted under its key. \<open>NULL\<close> is the empty tree.
\<close>

datatype tree_node = NULL | Node tree_node int "nat list" tree_node

fun tree_insert :: "tree_node \<Rightarrow> int \<Rightarrow> nat \<Rightarrow> tree_node" where
  "tree_insert NULL k v = Node NULL k [v] NULL"
| "tree_insert (Node l k' vs r) k v =
     (if k < k' then Node (tree_insert l k v) k' vs r
      else if k' < k then Node l k' vs (tree_insert r k v)
      else Node l k' (vs @ [v]) r)"

text \<open>\<open>tree_find\<close> returns the index list of the node found, \<open>None\<close> for no node.\<close>

fun tree_find :: "tree_node \<Rightarrow> int \<Rightarrow> nat list option" where
  "tree_find NULL k = None"
| "tree_find (Node l k' vs r) k =
     (if k < k' then tree_find l k
      else if k' < k then tree_find r k
      else Some vs)"

record PySMatchCat =
  maxmatch :: int
  matching_self :: int
  cat :: "CatalogEntry list"
  hpix :: healpix
  tree :: tree_node
  nmatches :: int

text \<open>
  Modelled from the spec: \<^verbatim>\<open>vector.h\<close> is not part of the sources. A vector is the
  list of its \<^verbatim>\<open>size\<close> visible elements; its capacity is a matter of memory only.
  \<open>vector_push\<close> appends, \<open>vector_clear\<close> empties, \<open>vector_realloc\<close> changes the
  capacity (cutting the contents when they no longer fit) and \<open>vector_resize\<close> sets the
  visible size, zero-filling new slots.
\<close>

definition vector_push :: "match_vector \<Rightarrow> Match \<Rightarrow> match_vector" where
  "vector_push v m = v @ [m]"

definition vector_clear :: "match_vector \<Rightarrow> match_vector" where
  "vector_clear v = []"

definition vector_realloc :: "match_vector \<Rightarrow> nat \<Rightarrow> match_vector" where
  "vector_realloc v n = take n v"

definition vector_resize :: "match_vector \<Rightarrow> nat \<Rightarrow> match_vector" where
  "vector_resize v n =
     take n v @ replicate (n - length v) \<lparr>cat_ind = 0, input_ind = 0, cosdist = 0\<rparr>"

section \<open>The heap over a match vector\<close>

text \<open>
  The \<^verbatim>\<open>do ... while (c != 0)\<close> loop of \<^verbatim>\<open>match_build_heap\<close>, entered at \<open>c \<ge> 1\<close>:
  it swaps the parent with the child when the \<^emph>\<open>parent\<close> has the smaller cosdist, and
  moves to the parent until the root has been compared.
\<close>

function build_heap_sift :: "Match list \<Rightarrow> nat \<Rightarrow> Match list" where
  "build_heap_sift data c =
     (let parent = (c - 1) div 2;
          data' = (if cosdist (data ! parent) < cosdist (data ! c)
                   then data[parent := data ! c, c := data ! parent]
                   else data)
      in if parent \<noteq> 0 then build_heap_sift data' parent else data')"
  by pat_completeness auto
termination
  by (relation "measure (\<lambda>(data, c). c)") auto

declare build_heap_sift.simps [simp del]

text \<open>
  \<^verbatim>\<open>for (i=1; i<vector_size(self)-1; i++)\<close>: the size does not change inside the loop,
  so the indices visited are \<open>1, ..., size - 2\<close>.
\<close>

definition match_build_heap :: "match_vector \<Rightarrow> match_vector" where
  "match_build_heap self =
     (if length self \<le> 1 then self
      else foldl build_heap_sift self [1 ..< length self - 1])"

text \<open>
  The \<^verbatim>\<open>while (jlo <= n)\<close> loop of \<^verbatim>\<open>match_heap_fix\<close>. In the C code \<^verbatim>\<open>v\<close> is the
  pointer \<^verbatim>\<open>&self->data[0]\<close>, not a copy of the root: every \<^verbatim>\<open>v->cosdist\<close> and the
  final \<^verbatim>\<open>*v\<close> read element 0 of the array as it is at that moment. The loop returns
  the array and the last \<^verbatim>\<open>jhi\<close>.
\<close>

function match_heap_fix_loop :: "nat \<Rightarrow> Match list \<Rightarrow> nat \<Rightarrow> nat \<Rightarrow> Match list \<times> nat" where
  "match_heap_fix_loop n data jhi jlo =
     (if jlo \<le> n then
        (let jlo' = (if jlo < n \<and> cosdist (data ! jlo) > cosdist (data ! (jlo + 1))
                     then jlo + 1 else jlo)
         in if cosdist (data ! 0) \<le> cosdist (data ! jlo') then (data, jhi)
            else match_heap_fix_loop n (data[jhi := data ! jlo']) jlo' (2 * jlo' + 1))
      else (data, jhi))"
  by pat_completeness auto
termination
  by (relation "measure (\<lambda>(n, data, jhi, jlo). Suc n - jlo)") auto

declare match_heap_fix_loop.simps [simp del]

definition match_heap_fix :: "match_vector \<Rightarrow> match_vector" where
  "match_heap_fix self =
     (let n = length self - 1;
          (data, jhi) = match_heap_fix_loop n self 0 1
      in data[jhi := data ! 0])"

definition match_heap_insert :: "match_vector \<Rightarrow> Match \<Rightarrow> match_vector" where
  "match_heap_insert self m =
     (if cosdist m > cosdist (self ! 0) then
        (let self' = self[0 := m]
         in if length self' > 1 then match_heap_fix self' else self')
      else self)"

section \<open>The in-memory matcher\<close>

text \<open>
  \<^verbatim>\<open>healpix.h\<close> is not part of the sources. \<^verbatim>\<open>hpix_eq2pix\<close> and \<^verbatim>\<open>hpix_eq2xyz\<close> are
  parameters of the model: each returns \<open>None\<close> where the C function leaves the status
  at 0 (a coordinate that is not finite), and the result with status 1 otherwise. The
  secondary arrays \<^verbatim>\<open>raObj\<close>, \<^verbatim>\<open>decObj\<close> are one list of pairs \<open>(ra, dec)\<close>.
\<close>

type_synonym eq2pix_fn = "healpix \<Rightarrow> rat \<Rightarrow> rat \<Rightarrow> int option"
type_synonym eq2xyz_fn = "rat \<Rightarrow> rat \<Rightarrow> (rat \<times> rat \<times> rat) option"

text \<open>
  The loop of \<^verbatim>\<open>create_hpix_tree\<close>. The status starts at 0 in the caller and is only
  written by \<^verbatim>\<open>hpix_eq2pix\<close>: with no secondary point at all it is still 0 after the
  loop, the tree is deleted and the call fails.
\<close>

fun create_hpix_tree_loop ::
  "eq2pix_fn \<Rightarrow> healpix \<Rightarrow> (rat \<times> rat) list \<Rightarrow> nat \<Rightarrow> tree_node \<Rightarrow> bool \<Rightarrow> tree_node option" where
  "create_hpix_tree_loop eq2pix hp [] i t status = (if status then Some t else None)"
| "create_hpix_tree_loop eq2pix hp (p # ps) i t status =
     (case eq2pix hp (fst p) (snd p) of
        None \<Rightarrow> None
      | Some hpixid \<Rightarrow>
          create_hpix_tree_loop eq2pix hp ps (Suc i)
            (tree_insert t (hpixid - npix hp div 2) i) True)"

definition create_hpix_tree :: "eq2pix_fn \<Rightarrow> healpix \<Rightarrow> (rat \<times> rat) list \<Rightarrow> tree_node option" where
  "create_hpix_tree eq2pix hp sec = create_hpix_tree_loop eq2pix hp sec 0 NULL False"

text \<open>
  The body of the innermost loop of \<^verbatim>\<open>domatch1\<close>, for one \<^verbatim>\<open>input_ind\<close> found in a
  tree node. The result is the status (\<open>False\<close> is the jump to \<^verbatim>\<open>_domatch1_bail\<close>) and
  the engine as the body leaves it.
\<close>

definition domatch1_candidate ::
  "eq2xyz_fn \<Rightarrow> PySMatchCat \<Rightarrow> nat \<Rightarrow> (rat \<times> rat) list \<Rightarrow> nat \<Rightarrow> bool \<times> PySMatchCat" where
  "domatch1_candidate eq2xyz self ci sec ii =
     (case eq2xyz (fst (sec ! ii)) (snd (sec ! ii)) of
        None \<Rightarrow> (False, self)
      | Some (x, y, z) \<Rightarrow>
          (let entry = cat self ! ci;
               pt = point entry;
               cos_angle = pt_x pt * x + pt_y pt * y + pt_z pt * z
           in if cos_angle > cos_radius pt then
                (let m = \<lparr>cat_ind = int ci, input_ind = int ii, cosdist = cos_angle\<rparr>;
                     ms = matches entry
                 in if maxmatch self \<le> 0 \<or> int (length ms) < maxmatch self then
                      (let ms1 = vector_push ms m;
                           ms2 = (if maxmatch self > 1 \<and> int (length ms1) = maxmatch self
                                  then match_build_heap ms1 else ms1)
                       in (True, self\<lparr>nmatches := nmatches self + 1,
                                      cat := (cat self)[ci := entry\<lparr>matches := ms2\<rparr>]\<rparr>))
                    else
                      (True, self\<lparr>cat := (cat self)[ci := entry\<lparr>matches := match_heap_insert ms m\<rparr>]\<rparr>))
              else (True, self)))"

text \<open>The loop over the indices of one tree node.\<close>

fun domatch1_node ::
  "eq2xyz_fn \<Rightarrow> PySMatchCat \<Rightarrow> nat \<Rightarrow> (rat \<times> rat) list \<Rightarrow> nat list \<Rightarrow> bool \<times> PySMatchCat" where
  "domatch1_node eq2xyz self ci sec [] = (True, self)"
| "domatch1_node eq2xyz self ci sec (ii # iis) =
     (case domatch1_candidate eq2xyz self ci sec ii of
        (False, self') \<Rightarrow> (False, self')
      | (True, self') \<Rightarrow> domatch1_node eq2xyz self' ci sec iis)"

text \<open>
  The loop over the disc pixels of the entry. The pixel list of an entry is never
  written during matching, so the loop runs over the list as it is at entry.
\<close>

fun domatch1_pixels ::
  "eq2xyz_fn \<Rightarrow> PySMatchCat \<Rightarrow> tree_node \<Rightarrow> nat \<Rightarrow> (rat \<times> rat) list \<Rightarrow> int list \<Rightarrow> bool \<times> PySMatchCat" where
  "domatch1_pixels eq2xyz self t ci sec [] = (True, self)"
| "domatch1_pixels eq2xyz self t ci sec (hpixid # rest) =
     (case tree_find t (hpixid - npix (hpix self) div 2) of
        None \<Rightarrow> domatch1_pixels eq2xyz self t ci sec rest
      | Some iis \<Rightarrow>
          (case domatch1_node eq2xyz self ci sec iis of
             (False, self') \<Rightarrow> (False, self')
           | (True, self') \<Rightarrow> domatch1_pixels eq2xyz self' t ci sec rest))"

definition domatch1 ::
  "eq2xyz_fn \<Rightarrow> PySMatchCat \<Rightarrow> tree_node \<Rightarrow> nat \<Rightarrow> (rat \<times> rat) list \<Rightarrow> bool \<times> PySMatchCat" where
  "domatch1 eq2xyz self t ci sec =
     domatch1_pixels eq2xyz self t ci sec (disc_pixels (cat self ! ci))"

text \<open>The loop of \<^verbatim>\<open>domatch\<close> over the catalog entries.\<close>

fun domatch_loop ::
  "eq2xyz_fn \<Rightarrow> PySMatchCat \<Rightarrow> tree_node \<Rightarrow> (rat \<times> rat) list \<Rightarrow> nat list \<Rightarrow> bool \<times> PySMatchCat" where
  "domatch_loop eq2xyz self t sec [] = (True, self)"
| "domatch_loop eq2xyz self t sec (i # is) =
     (case domatch1 eq2xyz self t i sec of
        (False, self') \<Rightarrow> (False, self')
      | (True, self') \<Rightarrow> domatch_loop eq2xyz self' t sec is)"

definition domatch ::
  "eq2pix_fn \<Rightarrow> eq2xyz_fn \<Rightarrow> PySMatchCat \<Rightarrow> (rat \<times> rat) list \<Rightarrow> bool \<times> PySMatchCat" where
  "domatch eq2pix eq2xyz self sec =
     (case create_hpix_tree eq2pix (hpix self) sec of
        None \<Rightarrow> (False, self)
      | Some t \<Rightarrow>
          domatch_loop eq2xyz (self\<lparr>nmatches := 0\<rparr>) t sec [0 ..< length (cat self)])"

definition match_prep_entry :: "int \<Rightarrow> CatalogEntry \<Rightarrow> CatalogEntry" where
  "match_prep_entry mm entry =
     (if mm \<le> 0 then entry\<lparr>matches := vector_clear (matches entry)\<rparr>
      else entry\<lparr>matches := vector_resize (vector_realloc (matches entry) (nat mm)) 0\<rparr>)"

definition match_prep :: "PySMatchCat \<Rightarrow> PySMatchCat" where
  "match_prep self = self\<lparr>cat := map (match_prep_entry (maxmatch self)) (cat self)\<rparr>"

text \<open>
  \<^verbatim>\<open>PySMatchCat_match\<close>: the arguments parsed into \<^verbatim>\<open>self->maxmatch\<close> and
  \<^verbatim>\<open>self->matching_self\<close>, then \<^verbatim>\<open>match_prep\<close> and \<^verbatim>\<open>domatch\<close>.
\<close>

definition PySMatchCat_match ::
  "eq2pix_fn \<Rightarrow> eq2xyz_fn \<Rightarrow> PySMatchCat \<Rightarrow> int \<Rightarrow> int \<Rightarrow> (rat \<times> rat) list \<Rightarrow> bool \<times> PySMatchCat" where
  "PySMatchCat_match eq2pix eq2xyz self mm ms sec =
     domatch eq2pix eq2xyz (match_prep (self\<lparr>maxmatch := mm, matching_self := ms\<rparr>)) sec"

section \<open>The text of a match: \<^verbatim>\<open>fprintf(fobj, "%ld %ld %.16g\n", ...)\<close>\<close>

text \<open>
  Modelled from the C standard: \<^verbatim>\<open>printf\<close> belongs to the C library. \<^verbatim>\<open>%ld\<close> prints a
  signed integer in decimal, with a minus sign when negative and no padding.
\<close>

definition digit_char :: "int \<Rightarrow> char" where
  "digit_char d = char_of (48 + d)"

function dec_digits :: "int \<Rightarrow> string" where
  "dec_digits n =
     (if n < 10 then [digit_char n] else dec_digits (n div 10) @ [digit_char (n mod 10)])"
  by pat_completeness auto
termination
  by (relation "measure nat") auto

declare dec_digits.simps [simp del]

definition fmt_ld :: "int \<Rightarrow> string" where
  "fmt_ld n = (if n < 0 then CHR ''-'' # dec_digits (- n) else dec_digits n)"

text \<open>
  Modelled from the C standard: the conversion \<^verbatim>\<open>%.Pg\<close> of a finite double \<open>v\<close>. With
  \<open>P\<close> the precision (1 when given as 0), the value is rounded to \<open>P\<close> significant
  decimal digits (to nearest, ties to even, as the C library does in the default rounding
  mode); \<open>X\<close> is the decimal exponent of the rounded value. When \<open>-4 \<le> X < P\<close> the
  value is printed in fixed notation with \<open>P - 1 - X\<close> digits after the point, otherwise
  in exponent notation with \<open>P - 1\<close> digits after the point and an exponent of at
  least two digits. Trailing zeros of the fraction are removed, and the point with them
  when no fraction is left. (The sign of a negative zero is not represented in \<open>rat\<close>.)
\<close>

definition pow10 :: "int \<Rightarrow> rat" where
  "pow10 k = (if 0 \<le> k then 10 ^ nat k else 1 / 10 ^ nat (- k))"

definition decimal_exponent :: "rat \<Rightarrow> int" where
  "decimal_exponent a =
     (let (n, d) = quotient_of a;
          k = int (length (dec_digits n)) - int (length (dec_digits d))
      in if pow10 k \<le> a then k else k - 1)"

definition round_half_even :: "rat \<Rightarrow> int" where
  "round_half_even q =
     (let f = \<lfloor>q\<rfloor>; r = q - of_int f
      in if r < 1 / 2 then f
         else if 1 / 2 < r then f + 1
         else if even f then f else f + 1)"

definition strip_zeros :: "string \<Rightarrow> string" where
  "strip_zeros s = rev (dropWhile (\<lambda>c. c = CHR ''0'') (rev s))"

definition with_fraction :: "string \<Rightarrow> string \<Rightarrow> string" where
  "with_fraction ip fr =
     (let fr' = strip_zeros fr in if fr' = [] then ip else ip @ CHR ''.'' # fr')"

definition fmt_exponent :: "int \<Rightarrow> string" where
  "fmt_exponent X =
     CHR ''e'' # (if X < 0 then CHR ''-'' else CHR ''+'') #
       (if \<bar>X\<bar> < 10 then CHR ''0'' # dec_digits \<bar>X\<bar> else dec_digits \<bar>X\<bar>)"

text \<open>
  The digits of the conversion for \<open>a > 0\<close>: the integer \<open>m\<close> of \<open>P\<close> decimal digits
  nearest to \<open>a / 10^(X - (P - 1))\<close>, and the decimal exponent \<open>X\<close> of the rounded
  value (one more than that of \<open>a\<close> when rounding carries into a new digit).
\<close>

definition g_digits :: "nat \<Rightarrow> rat \<Rightarrow> int \<times> int" where
  "g_digits P a =
     (let e10 = decimal_exponent a;
          m0 = round_half_even (a * pow10 (int P - 1 - e10))
      in if m0 = 10 ^ P then (10 ^ (P - 1), e10 + 1) else (m0, e10))"

text \<open>The text of the digits \<open>m\<close> at the exponent \<open>X\<close>, in fixed or in exponent notation.\<close>

definition g_body :: "nat \<Rightarrow> int \<Rightarrow> int \<Rightarrow> string" where
  "g_body P m X =
     (let ds = dec_digits m
      in if - 4 \<le> X \<and> X < int P then
           (if 0 \<le> X then with_fraction (take (nat X + 1) ds) (drop (nat X + 1) ds)
            else with_fraction ''0'' (replicate (nat (- X - 1)) CHR ''0'' @ ds))
         else with_fraction (take 1 ds) (drop 1 ds) @ fmt_exponent X)"

definition fmt_g :: "nat \<Rightarrow> rat \<Rightarrow> string" where
  "fmt_g prec v =
     (let P = (if prec = 0 then 1 else prec)
      in if v = 0 then ''0''
         else (let (m, X) = g_digits P \<bar>v\<bar>;
                   body = g_body P m X
               in if v < 0 then CHR ''-'' # body else body))"

text \<open>
  The number that the text \<open>fmt_g prec v\<close> denotes: \<open>v\<close> rounded to \<open>P\<close> significant
  decimal digits.
\<close>

definition g_value :: "nat \<Rightarrow> rat \<Rightarrow> rat" where
  "g_value prec v =
     (let P = (if prec = 0 then 1 else prec)
      in if v = 0 then 0
         else (let (m, X) = g_digits P \<bar>v\<bar>;
                   q = of_int m * pow10 (X - (int P - 1))
               in if v < 0 then - q else q))"

text \<open>The text written by one call \<^verbatim>\<open>fprintf(fobj, "%ld %ld %.16g\n", ci, ii, c)\<close>.\<close>

definition match_line :: "int \<Rightarrow> int \<Rightarrow> rat \<Rightarrow> string" where
  "match_line ci ii c = fmt_ld ci @ '' '' @ fmt_ld ii @ '' '' @ fmt_g 16 c @ [CHR 0x0A]"

text \<open>
  An output stream is the sequence of the \<^verbatim>\<open>fprintf\<close> calls completed on it, each
  recorded with its three arguments; the bytes of the file are the lines of these calls
  one after the other. \<^verbatim>\<open>fprintf\<close> returns the number of bytes written. Write errors
  of the operating system are not modelled (the C code tests \<^verbatim>\<open>nret == 0\<close>, which a
  failed \<^verbatim>\<open>fprintf\<close>, returning a negative number, does not satisfy either).
\<close>

type_synonym FILE_w = "(int \<times> int \<times> rat) list"

definition file_text :: "FILE_w \<Rightarrow> string" where
  "file_text fobj = concat (map (\<lambda>(ci, ii, c). match_line ci ii c) fobj)"

definition fprintf_match :: "FILE_w \<Rightarrow> int \<Rightarrow> int \<Rightarrow> rat \<Rightarrow> int \<times> FILE_w" where
  "fprintf_match fobj ci ii c = (int (length (match_line ci ii c)), fobj @ [(ci, ii, c)])"

section \<open>Matching to a file\<close>

text \<open>
  The loop of \<^verbatim>\<open>domatch1_2file\<close> over the catalog indices of the tree node found for
  the pixel of one secondary point \<open>(x, y, z)\<close>. The result is the status, the count
  \<^verbatim>\<open>*match_incr\<close> and the stream.
\<close>

fun domatch1_2file_node ::
  "PySMatchCat \<Rightarrow> rat \<times> rat \<times> rat \<Rightarrow> nat \<Rightarrow> nat list \<Rightarrow> FILE_w \<Rightarrow> nat \<Rightarrow> bool \<times> nat \<times> FILE_w" where
  "domatch1_2file_node self p ii [] fobj incr = (True, incr, fobj)"
| "domatch1_2file_node self p ii (ci # cs) fobj incr =
     (if matching_self self \<noteq> 0 \<and> int ci = int ii then
        domatch1_2file_node self p ii cs fobj incr
      else
        (let pt = point (cat self ! ci);
             cos_angle = pt_x pt * fst p + pt_y pt * fst (snd p) + pt_z pt * snd (snd p)
         in if cos_angle > cos_radius pt then
              (let (nret, fobj') = fprintf_match fobj (int ci) (int ii) cos_angle
               in if nret = 0 then (False, Suc incr, fobj')
                  else domatch1_2file_node self p ii cs fobj' (Suc incr))
            else domatch1_2file_node self p ii cs fobj incr))"

definition domatch1_2file ::
  "eq2pix_fn \<Rightarrow> eq2xyz_fn \<Rightarrow> PySMatchCat \<Rightarrow> rat \<Rightarrow> rat \<Rightarrow> nat \<Rightarrow> FILE_w \<Rightarrow> bool \<times> nat \<times> FILE_w" where
  "domatch1_2file eq2pix eq2xyz self ra dec ii fobj =
     (case eq2pix (hpix self) ra dec of
        None \<Rightarrow> (False, 0, fobj)
      | Some hpixid \<Rightarrow>
          (case tree_find (tree self) (hpixid - npix (hpix self) div 2) of
             None \<Rightarrow> (True, 0, fobj)
           | Some cs \<Rightarrow>
               (case eq2xyz ra dec of
                  None \<Rightarrow> (False, 0, fobj)
                | Some p \<Rightarrow> domatch1_2file_node self p ii cs fobj 0)))"

text \<open>
  The loop of \<^verbatim>\<open>domatch2file_all\<close>. The status starts at 0, and a failed
  \<^verbatim>\<open>domatch1_2file\<close> leaves the loop before its count is added.
\<close>

fun domatch2file_all_loop ::
  "eq2pix_fn \<Rightarrow> eq2xyz_fn \<Rightarrow> PySMatchCat \<Rightarrow> (rat \<times> rat) list \<Rightarrow> nat \<Rightarrow> FILE_w \<Rightarrow> bool
     \<Rightarrow> bool \<times> PySMatchCat \<times> FILE_w" where
  "domatch2file_all_loop eq2pix eq2xyz self [] i fobj status = (status, self, fobj)"
| "domatch2file_all_loop eq2pix eq2xyz self (p # ps) i fobj status =
     (case domatch1_2file eq2pix eq2xyz self (fst p) (snd p) i fobj of
        (False, incr, fobj') \<Rightarrow> (False, self, fobj')
      | (True, incr, fobj') \<Rightarrow>
          domatch2file_all_loop eq2pix eq2xyz (self\<lparr>nmatches := nmatches self + int incr\<rparr>)
            ps (Suc i) fobj' True)"

definition domatch2file_all ::
  "eq2pix_fn \<Rightarrow> eq2xyz_fn \<Rightarrow> PySMatchCat \<Rightarrow> (rat \<times> rat) list \<Rightarrow> FILE_w \<Rightarrow> bool \<times> PySMatchCat \<times> FILE_w" where
  "domatch2file_all eq2pix eq2xyz self sec fobj =
     domatch2file_all_loop eq2pix eq2xyz self sec 0 fobj False"

text \<open>\<^verbatim>\<open>write_matches\<close>: the inner loop over one match vector, and the loop over the catalog.\<close>

fun write_matches_vector :: "Match list \<Rightarrow> FILE_w \<Rightarrow> bool \<times> FILE_w" where
  "write_matches_vector [] fobj = (True, fobj)"
| "write_matches_vector (m # ms) fobj =
     (let (nret, fobj') = fprintf_match fobj (cat_ind m) (input_ind m) (cosdist m)
      in if nret = 0 then (False, fobj') else write_matches_vector ms fobj')"

fun write_matches_loop :: "CatalogEntry list \<Rightarrow> FILE_w \<Rightarrow> bool \<times> FILE_w" where
  "write_matches_loop [] fobj = (True, fobj)"
| "write_matches_loop (e # es) fobj =
     (case write_matches_vector (matches e) fobj of
        (False, fobj') \<Rightarrow> (False, fobj')
      | (True, fobj') \<Rightarrow> write_matches_loop es fobj')"

definition write_matches :: "PySMatchCat \<Rightarrow> FILE_w \<Rightarrow> bool \<times> FILE_w" where
  "write_matches self fobj = write_matches_loop (cat self) fobj"

text \<open>
  \<^verbatim>\<open>domatch2file\<close>. \<open>can_open\<close> tells whether \<^verbatim>\<open>fopen(filename, "w")\<close> succeeds; the
  file opened is empty. The result is the status, the engine and the stream (\<open>None\<close>
  when no file was opened).
\<close>

definition domatch2file ::
  "eq2pix_fn \<Rightarrow> eq2xyz_fn \<Rightarrow> PySMatchCat \<Rightarrow> (rat \<times> rat) list \<Rightarrow> bool
     \<Rightarrow> bool \<times> PySMatchCat \<times> FILE_w option" where
  "domatch2file eq2pix eq2xyz self sec can_open =
     (if \<not> can_open then (False, self, None)
      else if maxmatch self \<le> 0 then
        (case domatch2file_all eq2pix eq2xyz self sec [] of
           (status, self', fobj) \<Rightarrow> (status, self', Some fobj))
      else
        (case domatch eq2pix eq2xyz (match_prep self) sec of
           (False, self') \<Rightarrow> (False, self', Some [])
         | (True, self') \<Rightarrow>
             (case write_matches self' [] of (status, fobj) \<Rightarrow> (status, self', Some fobj))))"

definition PySMatchCat_match2file ::
  "eq2pix_fn \<Rightarrow> eq2xyz_fn \<Rightarrow> PySMatchCat \<Rightarrow> int \<Rightarrow> int \<Rightarrow> (rat \<times> rat) list \<Rightarrow> bool
     \<Rightarrow> bool \<times> PySMatchCat \<times> FILE_w option" where
  "PySMatchCat_match2file eq2pix eq2xyz self mm ms sec can_open =
     domatch2file eq2pix eq2xyz (self\<lparr>maxmatch := mm, matching_self := ms\<rparr>) sec can_open"

section \<open>Counting the lines of a file\<close>

text \<open>
  A stream open for reading: the bytes not yet read and the end-of-file indicator.
  \<^verbatim>\<open>fgetc\<close> returns the next byte as a value \<open>0..255\<close>, or \<^verbatim>\<open>EOF\<close> (\<open>-1\<close>) and sets the
  indicator when no byte is left. Read errors are not modelled.
\<close>

record FILE_r =
  unread :: string
  eof_ind :: bool

definition fopen_r :: "string \<Rightarrow> FILE_r" where
  "fopen_r bytes = \<lparr>unread = bytes, eof_ind = False\<rparr>"

definition feof :: "FILE_r \<Rightarrow> bool" where
  "feof fobj = eof_ind fobj"

definition fgetc :: "FILE_r \<Rightarrow> int \<times> FILE_r" where
  "fgetc fobj =
     (case unread fobj of
        [] \<Rightarrow> (- 1, fobj\<lparr>eof_ind := True\<rparr>)
      | b # bs \<Rightarrow> (of_char b, fobj\<lparr>unread := bs\<rparr>))"

text \<open>
  The loop of \<^verbatim>\<open>count_lines\<close>. The result of \<^verbatim>\<open>fgetc\<close> is stored in a \<^verbatim>\<open>char\<close>, which
  keeps its low eight bits (\<open>char_of\<close>), and compared with the newline character.
\<close>

function count_lines_loop :: "FILE_r \<Rightarrow> int \<Rightarrow> int" where
  "count_lines_loop fobj nlines =
     (if \<not> feof fobj then
        (let (c, fobj') = fgetc fobj;
             ch = (char_of c :: char)
         in count_lines_loop fobj' (if ch = CHR 0x0A then nlines + 1 else nlines))
      else nlines)"
  by pat_completeness auto
termination
  by (relation "measure (\<lambda>(fobj, nlines). length (unread fobj) + (if eof_ind fobj then 0 else 1))")
     (auto simp: feof_def fgetc_def split: list.splits)

declare count_lines_loop.simps [simp del]

definition count_lines :: "FILE_r \<Rightarrow> int" where
  "count_lines fobj = count_lines_loop fobj 0"

datatype py_error = IOError | ValueError

text \<open>
  \<^verbatim>\<open>PySMatchCat_count_lines\<close>. The file system maps a path to the bytes of the file, or
  to \<open>None\<close> when \<^verbatim>\<open>fopen\<close> fails.
\<close>

definition PySMatchCat_count_lines :: "(string \<Rightarrow> string option) \<Rightarrow> string \<Rightarrow> py_error + int" where
  "PySMatchCat_count_lines fs filename =
     (case fs filename of
        None \<Rightarrow> Inl IOError
      | Some bytes \<Rightarrow> Inr (count_lines (fopen_r bytes)))"

section \<open>Reading matches back: \<^verbatim>\<open>fscanf(fobj, "%ld %ld %lf\n", ...)\<close>\<close>

text \<open>
  Modelled from the C standard: \<^verbatim>\<open>fscanf\<close>, \<^verbatim>\<open>strtol\<close> and \<^verbatim>\<open>strtod\<close> belong to the C
  library. White space is what \<^verbatim>\<open>isspace\<close> accepts in the C locale; a white-space
  directive of the format, and every conversion before it reads, skip any amount of it.
\<close>

definition is_digit :: "char \<Rightarrow> bool" where
  "is_digit c = (c \<in> set ''0123456789'')"

definition isspace :: "char \<Rightarrow> bool" where
  "isspace c = (c \<in> set [CHR '' '', CHR 0x09, CHR 0x0A, CHR 0x0B, CHR 0x0C, CHR 0x0D])"

definition skip_ws :: "string \<Rightarrow> string" where
  "skip_ws s = dropWhile isspace s"

definition digit_val :: "char \<Rightarrow> int" where
  "digit_val c = of_char c - 48"

definition digits_val :: "string \<Rightarrow> int" where
  "digits_val ds = foldl (\<lambda>a c. 10 * a + digit_val c) 0 ds"

definition scan_sign :: "string \<Rightarrow> bool \<times> string" where
  "scan_sign s =
     (case s of
        [] \<Rightarrow> (False, s)
      | c # r \<Rightarrow> if c = CHR ''-'' then (True, r) else if c = CHR ''+'' then (False, r) else (False, s))"

definition LONG_MAX :: int where
  "LONG_MAX = 2 ^ 63 - 1"

definition LONG_MIN :: int where
  "LONG_MIN = - (2 ^ 63)"

text \<open>
  \<^verbatim>\<open>%ld\<close> on input without leading white space: an optional sign and the longest run of
  decimal digits; no digit is a matching failure (\<open>None\<close>). A number outside the range
  of \<^verbatim>\<open>long\<close> is stored as the nearest bound, as \<^verbatim>\<open>strtol\<close> returns it.
\<close>

definition scan_ld :: "string \<Rightarrow> (int \<times> string) option" where
  "scan_ld s =
     (let (neg, s1) = scan_sign s;
          ds = takeWhile is_digit s1
      in if ds = [] then None
         else Some (max LONG_MIN (min LONG_MAX (if neg then - digits_val ds else digits_val ds)),
                    dropWhile is_digit s1))"

text \<open>
  The nearest double of a rational number (ties to even): 53 significant bits, with the
  exponent of the last bit not below \<open>-1074\<close> (subnormal numbers). Numbers beyond the
  largest double, which \<^verbatim>\<open>strtod\<close> turns into an infinity, are not modelled.
\<close>

definition pow2 :: "int \<Rightarrow> rat" where
  "pow2 k = (if 0 \<le> k then 2 ^ nat k else 1 / 2 ^ nat (- k))"

function bit_length :: "int \<Rightarrow> nat" where
  "bit_length n = (if n < 2 then 1 else Suc (bit_length (n div 2)))"
  by pat_completeness auto
termination
  by (relation "measure nat") auto

declare bit_length.simps [simp del]

definition binary_exponent :: "rat \<Rightarrow> int" where
  "binary_exponent a =
     (let (n, d) = quotient_of a;
          k = int (bit_length n) - int (bit_length d)
      in if pow2 k \<le> a then k else k - 1)"

definition to_double :: "rat \<Rightarrow> rat" where
  "to_double q =
     (if q = 0 then 0
      else (let a = \<bar>q\<bar>;
                e = max (binary_exponent a - 52) (- 1074);
                r = of_int (round_half_even (a / pow2 e)) * pow2 e
            in if q < 0 then - r else r))"

text \<open>
  The exponent part of a decimal floating-point number: \<^verbatim>\<open>e\<close> or \<^verbatim>\<open>E\<close>, an optional
  sign and at least one digit; anything else is no exponent and is left unread.
\<close>

definition scan_exponent :: "string \<Rightarrow> int \<times> string" where
  "scan_exponent s =
     (case s of
        [] \<Rightarrow> (0, s)
      | c # r \<Rightarrow>
          if c = CHR ''e'' \<or> c = CHR ''E'' then
            (let (neg, r1) = scan_sign r;
                 ds = takeWhile is_digit r1
             in if ds = [] then (0, s)
                else (if neg then - digits_val ds else digits_val ds, dropWhile is_digit r1))
          else (0, s))"

text \<open>
  The fraction part of a decimal floating-point number: a point and the digits after it,
  if there is a point.
\<close>

definition scan_fraction :: "string \<Rightarrow> string \<times> string" where
  "scan_fraction s =
     (case s of
        [] \<Rightarrow> ([], s)
      | c # t \<Rightarrow> if c = CHR ''.'' then (takeWhile is_digit t, dropWhile is_digit t) else ([], s))"

text \<open>
  \<^verbatim>\<open>%lf\<close> on input without leading white space: an optional sign, digits with an
  optional point among them (at least one digit), an optional exponent part; the value
  is the nearest double of the decimal number read. Infinities, NaNs and hexadecimal
  numbers, which \<^verbatim>\<open>strtod\<close> also accepts and \<^verbatim>\<open>%.16g\<close> never writes for a finite double,
  are not modelled (they count as a matching failure).
\<close>

definition scan_lf :: "string \<Rightarrow> (rat \<times> string) option" where
  "scan_lf s =
     (let (neg, s1) = scan_sign s;
          ip = takeWhile is_digit s1;
          (fp, r2) = scan_fraction (dropWhile is_digit s1)
      in if ip = [] \<and> fp = [] then None
         else (let (ex, r3) = scan_exponent r2;
                   q = of_int (digits_val (ip @ fp)) * pow10 (ex - int (length fp))
               in Some (to_double (if neg then - q else q), r3)))"

text \<open>
  One call \<^verbatim>\<open>fscanf(fobj, "%ld %ld %lf\n", &match->cat_ind, &match->input_ind,
  &match->cosdist)\<close> on the unread bytes of the stream: the number of fields assigned
  (\<^verbatim>\<open>EOF\<close>, \<open>-1\<close>, when the input ends before the first field), the match with the
  fields assigned so far, and the bytes left unread.
\<close>

definition fscanf_match :: "string \<Rightarrow> Match \<Rightarrow> int \<times> Match \<times> string" where
  "fscanf_match s m =
     (let s0 = skip_ws s
      in if s0 = [] then (- 1, m, s0)
         else
           (case scan_ld s0 of
              None \<Rightarrow> (0, m, s0)
            | Some (a, s1) \<Rightarrow>
                (let m1 = m\<lparr>cat_ind := a\<rparr>;
                     s1' = skip_ws s1
                 in case scan_ld s1' of
                      None \<Rightarrow> (1, m1, s1')
                    | Some (b, s2) \<Rightarrow>
                        (let m2 = m1\<lparr>input_ind := b\<rparr>;
                             s2' = skip_ws s2
                         in case scan_lf s2' of
                              None \<Rightarrow> (2, m2, s2')
                            | Some (c, s3) \<Rightarrow> (3, m2\<lparr>cosdist := c\<rparr>, skip_ws s3)))))"

text \<open>
  The loop of \<^verbatim>\<open>PySMatchCat_load_matches\<close> over the elements of the caller's array; it
  stops at the first element that \<^verbatim>\<open>fscanf\<close> does not fill with three fields.
\<close>

fun load_matches_loop :: "string \<Rightarrow> Match list \<Rightarrow> bool \<times> Match list" where
  "load_matches_loop s [] = (True, [])"
| "load_matches_loop s (m # ms) =
     (case fscanf_match s m of
        (nread, m', s') \<Rightarrow>
          if nread \<noteq> 3 then (False, m' # ms)
          else (case load_matches_loop s' ms of (ok, ms') \<Rightarrow> (ok, m' # ms')))"

text \<open>
  \<^verbatim>\<open>PySMatchCat_load_matches\<close>: the error raised (\<open>None\<close> for a normal return) and the
  caller's array as the call leaves it. An empty array returns before the file is opened.
\<close>

definition PySMatchCat_load_matches ::
  "(string \<Rightarrow> string option) \<Rightarrow> string \<Rightarrow> Match list \<Rightarrow> py_error option \<times> Match list" where
  "PySMatchCat_load_matches fs filename matchesObj =
     (if int (length matchesObj) \<le> 0 then (None, matchesObj)
      else
        (case fs filename of
           None \<Rightarrow> (Some IOError, matchesObj)
         | Some bytes \<Rightarrow>
             (case load_matches_loop bytes matchesObj of
                (True, ms) \<Rightarrow> (None, ms)
              | (False, ms) \<Rightarrow> (Some IOError, ms))))"

section \<open>Notions used in the statements\<close>

text \<open>
  The pieces of a text between the occurrences of a separator (one piece more than there
  are separators).
\<close>

fun split_acc :: "char \<Rightarrow> string \<Rightarrow> string \<Rightarrow> string list" where
  "split_acc sep cur [] = [cur]"
| "split_acc sep cur (c # cs) =
     (if c = sep then cur # split_acc sep [] cs else split_acc sep (cur @ [c]) cs)"

definition split_at :: "char \<Rightarrow> string \<Rightarrow> string list" where
  "split_at sep s = split_acc sep [] s"

text \<open>
  A line of the match file without its newline, as \<^verbatim>\<open>"%ld %ld %.16g"\<close> prints a triple.
\<close>

definition line_body :: "int \<times> int \<times> rat \<Rightarrow> string" where
  "line_body t = fmt_ld (fst t) @ '' '' @ fmt_ld (fst (snd t)) @ '' '' @ fmt_g 16 (snd (snd t))"

text \<open>
  The number of significant digits a decimal text shows: its digits before any exponent
  part, from the first one that is not zero.
\<close>

definition significant_digits :: "string \<Rightarrow> nat" where
  "significant_digits s =
     length (dropWhile (\<lambda>c. c = CHR ''0'') (filter is_digit (takeWhile (\<lambda>c. c \<noteq> CHR ''e'') s)))"

section \<open>A sample engine\<close>

text \<open>
  One primary at \<open>(1, 0, 0)\<close> on the grid of \<open>nside = 1\<close>, with the radius whose
  cosine is \<open>3/5\<close> (53.13 degrees), and secondaries on the equator: those within 45
  degrees of the primary lie in ring pixel 4, the one at 53.13 degrees, exactly on the
  rim of the disc, in ring pixel 5. The table stands for \<^verbatim>\<open>hpix_eq2xyz\<close> on these
  positions (unit vectors with rational coordinates; the right ascensions name them to a
  hundredth of a degree).
\<close>

definition sample_eq2pix :: eq2pix_fn where
  "sample_eq2pix hp ra dec = (if ra < 45 then Some 4 else Some 5)"

definition sample_eq2xyz :: eq2xyz_fn where
  "sample_eq2xyz ra dec =
     (if ra = 0 then Some (1, 0, 0)
      else if ra = 1626 / 100 then Some (24 / 25, 7 / 25, 0)
      else if ra = 2262 / 100 then Some (12 / 13, 5 / 13, 0)
      else if ra = 2807 / 100 then Some (15 / 17, 8 / 17, 0)
      else if ra = 3687 / 100 then Some (4 / 5, 3 / 5, 0)
      else if ra = 5313 / 100 then Some (3 / 5, 4 / 5, 0)
      else None)"

definition sample_engine :: PySMatchCat where
  "sample_engine =
     \<lparr>maxmatch = 0, matching_self = 0,
      cat = [\<lparr>point = \<lparr>pt_x = 1, pt_y = 0, pt_z = 0, radius = 9273 / 10000, cos_radius = 3 / 5\<rparr>,
              disc_pixels = [0, 3, 4, 5, 7, 8, 11], matches = []\<rparr>],
      hpix = \<lparr>nside = 1, npix = 12\<rparr>, tree = NULL, nmatches = 0\<rparr>"

text \<open>
  The same engine with a pixel tree over the primary in \<^verbatim>\<open>self->tree\<close>, where
  \<^verbatim>\<open>domatch1_2file\<close> looks for it: the index of each entry under the key of each of
  its disc pixels, as the function \<^verbatim>\<open>create_tree\<close> would build it. (In \<^verbatim>\<open>smatch.c\<close> as
  it stands this function and its call are commented out, and \<^verbatim>\<open>PySMatchCat_init\<close>
  sets \<^verbatim>\<open>self->tree\<close> to \<^verbatim>\<open>NULL\<close>.)
\<close>

definition sample_engine_tree :: PySMatchCat where
  "sample_engine_tree =
     sample_engine\<lparr>tree := foldl (\<lambda>t p. tree_insert t (p - 12 div 2) 0) NULL
                              (disc_pixels (cat sample_engine ! 0))\<rparr>"

text \<open>
  A wider disc around the same primary: a radius of 75 degrees, with \<^verbatim>\<open>radius\<close> and
  \<^verbatim>\<open>cos_radius\<close> the doubles \<open>1.3089969389957472\<close> and \<open>0.25881904510252074\<close>. The
  table is extended by the secondary at right ascension 60.04 degrees on the equator (ring
  pixel 5), whose coordinates are the doubles \<open>cos 60.04\<degree> = 0.49939527841407133\<close> and
  \<open>sin 60.04\<degree> = 0.8663742585613519\<close>.
\<close>

definition sample_eq2xyz_wide :: eq2xyz_fn where
  "sample_eq2xyz_wide ra dec =
     (if ra = 6004 / 100 then Some (8996305559104787 / 2 ^ 54, 1950901394010147 / 2 ^ 51, 0)
      else sample_eq2xyz ra dec)"

definition sample_engine_wide :: PySMatchCat where
  "sample_engine_wide =
     sample_engine\<lparr>cat :=
       [\<lparr>point = \<lparr>pt_x = 1, pt_y = 0, pt_z = 0, radius = 5895198126690367 / 2 ^ 52,
                   cos_radius = 291404338770025 / 2 ^ 50\<rparr>,
         disc_pixels = [0, 1, 2, 3, 4, 5, 7, 8, 9, 10, 11], matches = []\<rparr>]\<rparr>"

definition sample_engine_wide_tree :: PySMatchCat where
  "sample_engine_wide_tree =
     sample_engine_wide\<lparr>tree := foldl (\<lambda>t p. tree_insert t (p - 12 div 2) 0) NULL
                                   (disc_pixels (cat sample_engine_wide ! 0))\<rparr>"

section \<open>Auxiliary facts\<close>

subsection \<open>The heap operations move matches, they create none\<close>

lemma length_build_heap_sift [simp]: "length (build_heap_sift d c) = length d"
  by (induction d c rule: build_heap_sift.induct)
     (subst build_heap_sift.simps, simp add: Let_def)

lemma mset_build_heap_sift: "c < length d \<Longrightarrow> mset (build_heap_sift d c) = mset d"
proof (induction d c rule: build_heap_sift.induct)
  case (1 d c)
  let ?p = "(c - 1) div 2"
  have p: "?p < length d" using "1.prems" by simp
  show ?case
    using "1.IH"[OF refl refl] "1.prems" p
    by (subst build_heap_sift.simps) (auto simp: Let_def mset_swap)
qed

lemma length_foldl_sift [simp]: "length (foldl build_heap_sift d is) = length d"
  by (induction "is" arbitrary: d) auto

lemma mset_foldl_sift:
  "\<forall>i \<in> set is. i < length d \<Longrightarrow> mset (foldl build_heap_sift d is) = mset d"
  by (induction "is" arbitrary: d) (auto simp: mset_build_heap_sift)

lemma mset_match_build_heap [simp]: "mset (match_build_heap d) = mset d"
  by (auto simp: match_build_heap_def intro!: mset_foldl_sift)

lemma length_match_build_heap [simp]: "length (match_build_heap d) = length d"
  by (simp add: match_build_heap_def)

lemma set_match_build_heap [simp]: "set (match_build_heap d) = set d"
  by (metis mset_match_build_heap set_mset_mset)

lemma match_heap_fix_loop_props:
  "match_heap_fix_loop n d jhi jlo = (d', jhi') \<Longrightarrow> n < length d \<Longrightarrow> jhi < length d \<Longrightarrow>
     length d' = length d \<and> set d' \<subseteq> set d \<and> jhi' < length d"
proof (induction n d jhi jlo arbitrary: d' jhi' rule: match_heap_fix_loop.induct)
  case (1 n d jhi jlo)
  show ?case
  proof (cases "jlo \<le> n")
    case False
    with "1.prems" show ?thesis by (simp add: match_heap_fix_loop.simps)
  next
    case True
    define j where "j = (if jlo < n \<and> cosdist (d ! jlo) > cosdist (d ! (jlo + 1)) then jlo + 1 else jlo)"
    have jn: "j \<le> n" using True by (auto simp: j_def)
    show ?thesis
    proof (cases "cosdist (d ! 0) \<le> cosdist (d ! j)")
      case True
      with "1.prems" \<open>jlo \<le> n\<close> show ?thesis
        by (subst (asm) match_heap_fix_loop.simps) (simp add: j_def Let_def)
    next
      case False
      have rec: "match_heap_fix_loop n (d[jhi := d ! j]) j (2 * j + 1) = (d', jhi')"
        using "1.prems"(1) \<open>jlo \<le> n\<close> False
        by (subst (asm) match_heap_fix_loop.simps) (simp add: j_def Let_def)
      have "length d' = length (d[jhi := d ! j]) \<and> set d' \<subseteq> set (d[jhi := d ! j]) \<and> jhi' < length (d[jhi := d ! j])"
        using "1.IH"[OF \<open>jlo \<le> n\<close> j_def False rec] "1.prems" jn
        by simp
      moreover have "set (d[jhi := d ! j]) \<subseteq> set d"
        using jn "1.prems" by (metis insert_subset le_less_trans nth_mem set_update_subset_insert subset_trans subset_refl)
      ultimately show ?thesis by auto
    qed
  qed
qed


lemma length_match_heap_fix: "d \<noteq> [] \<Longrightarrow> length (match_heap_fix d) = length d"
proof -
  assume ne: "d \<noteq> []"
  obtain d' jhi' where l: "match_heap_fix_loop (length d - 1) d 0 1 = (d', jhi')"
    by (cases "match_heap_fix_loop (length d - 1) d 0 1")
  from match_heap_fix_loop_props[OF l] ne have "length d' = length d" by simp
  with l show ?thesis by (simp add: match_heap_fix_def Let_def)
qed

lemma set_match_heap_fix: "d \<noteq> [] \<Longrightarrow> set (match_heap_fix d) \<subseteq> set d"
proof -
  assume ne: "d \<noteq> []"
  obtain d' jhi' where l: "match_heap_fix_loop (length d - 1) d 0 1 = (d', jhi')"
    by (cases "match_heap_fix_loop (length d - 1) d 0 1")
  from match_heap_fix_loop_props[OF l] ne
  have p: "length d' = length d" "set d' \<subseteq> set d" by simp_all
  then have "d' ! 0 \<in> set d'" using ne by (metis length_greater_0_conv nth_mem)
  then have "set (d'[jhi' := d' ! 0]) \<subseteq> set d'"
    by (metis insert_absorb set_update_subset_insert)
  with p l show ?thesis by (simp add: match_heap_fix_def Let_def)
qed

lemma length_match_heap_insert [simp]: "length (match_heap_insert d m) = length d"
  by (cases d) (simp_all add: match_heap_insert_def Let_def length_match_heap_fix)

lemma set_match_heap_insert: "set (match_heap_insert d m) \<subseteq> insert m (set d)"
proof (cases d)
  case Nil
  then show ?thesis by (simp add: match_heap_insert_def Let_def)
next
  case (Cons a as)
  have "set (match_heap_fix (m # as)) \<subseteq> insert m (set as)"
    using set_match_heap_fix[of "m # as"] by simp
  with Cons show ?thesis by (auto simp: match_heap_insert_def Let_def)
qed

lemma map_update_same:
  "(\<And>x. f (g x) = f x) \<Longrightarrow> map f (xs[k := g (xs ! k)]) = map f xs"
  by (induction xs arbitrary: k) (auto split: nat.splits)

lemma sum_list_map_update:
  "k < length xs \<Longrightarrow> (\<Sum>x\<leftarrow>xs[k := y]. (f x :: int)) = (\<Sum>x\<leftarrow>xs. f x) - f (xs ! k) + f y"
  by (induction xs arbitrary: k) (auto split: nat.splits)

lemma domatch1_candidate_result:
  assumes "domatch1_candidate eq2xyz s ci sec ii = (b, s')"
  obtains (same) "s' = s"
  | (push) m ms2 where
      "cos_radius (point (cat s ! ci)) < cosdist m" "cat_ind m = int ci" "input_ind m = int ii"
      "maxmatch s \<le> 0 \<or> int (length (matches (cat s ! ci))) < maxmatch s"
      "mset ms2 = mset (matches (cat s ! ci)) + {#m#}"
      "s' = s\<lparr>nmatches := nmatches s + 1, cat := (cat s)[ci := (cat s ! ci)\<lparr>matches := ms2\<rparr>]\<rparr>"
  | (heap) m where
      "cos_radius (point (cat s ! ci)) < cosdist m" "cat_ind m = int ci" "input_ind m = int ii"
      "0 < maxmatch s" "maxmatch s \<le> int (length (matches (cat s ! ci)))"
      "s' = s\<lparr>cat := (cat s)[ci := (cat s ! ci)\<lparr>matches := match_heap_insert (matches (cat s ! ci)) m\<rparr>]\<rparr>"
proof (cases "eq2xyz (fst (sec ! ii)) (snd (sec ! ii))")
  case None
  with assms have "s' = s" by (simp add: domatch1_candidate_def)
  then show ?thesis by (rule same)
next
  case (Some p)
  obtain x y z where p: "p = (x, y, z)" by (cases p)
  define c where "c = pt_x (point (cat s ! ci)) * x + pt_y (point (cat s ! ci)) * y + pt_z (point (cat s ! ci)) * z"
  define m where "m = \<lparr>cat_ind = int ci, input_ind = int ii, cosdist = c\<rparr>"
  show ?thesis
  proof (cases "cos_radius (point (cat s ! ci)) < c")
    case False
    with assms Some p have "s' = s" by (simp add: domatch1_candidate_def Let_def c_def)
    then show ?thesis by (rule same)
  next
    case True
    show ?thesis
    proof (cases "maxmatch s \<le> 0 \<or> int (length (matches (cat s ! ci))) < maxmatch s")
      case t: True
      define ms2 where "ms2 = (if maxmatch s > 1 \<and> int (length (vector_push (matches (cat s ! ci)) m)) = maxmatch s
                                  then match_build_heap (vector_push (matches (cat s ! ci)) m) else vector_push (matches (cat s ! ci)) m)"
      have "mset ms2 = mset (matches (cat s ! ci)) + {#m#}"
        by (simp add: ms2_def vector_push_def)
      moreover have "s' = s\<lparr>nmatches := nmatches s + 1, cat := (cat s)[ci := (cat s ! ci)\<lparr>matches := ms2\<rparr>]\<rparr>"
        using assms Some p True t
        by (simp add: domatch1_candidate_def Let_def c_def[symmetric] m_def[symmetric] ms2_def)
      ultimately show ?thesis
        using True t by (intro push[of m ms2]) (simp_all add: m_def)
    next
      case f: False
      have "s' = s\<lparr>cat := (cat s)[ci := (cat s ! ci)\<lparr>matches := match_heap_insert (matches (cat s ! ci)) m\<rparr>]\<rparr>"
        using assms Some p True f
        by (simp add: domatch1_candidate_def Let_def c_def[symmetric] m_def[symmetric])
      then show ?thesis
        using True f by (intro heap[of m]) (simp_all add: m_def)
    qed
  qed
qed

lemma domatch1_node_inv:
  assumes "\<And>s ii b s'. P s \<Longrightarrow> domatch1_candidate eq2xyz s ci sec ii = (b, s') \<Longrightarrow> P s'"
    and "P s" and "domatch1_node eq2xyz s ci sec iis = (b, s')"
  shows "P s'"
  using assms(2,3)
proof (induction iis arbitrary: s)
  case Nil
  then show ?case by simp
next
  case (Cons ii iis)
  obtain b1 s1 where c: "domatch1_candidate eq2xyz s ci sec ii = (b1, s1)"
    by (cases "domatch1_candidate eq2xyz s ci sec ii")
  have "P s1" using assms(1) Cons.prems(1) c by blast
  with Cons c show ?case by (cases b1) auto
qed

lemma domatch1_pixels_inv:
  assumes "\<And>s ii b s'. P s \<Longrightarrow> domatch1_candidate eq2xyz s ci sec ii = (b, s') \<Longrightarrow> P s'"
    and "P s" and "domatch1_pixels eq2xyz s t ci sec ps = (b, s')"
  shows "P s'"
  using assms(2,3)
proof (induction ps arbitrary: s)
  case Nil
  then show ?case by simp
next
  case (Cons p ps)
  show ?case
  proof (cases "tree_find t (p - npix (hpix s) div 2)")
    case None
    with Cons show ?thesis by simp
  next
    case (Some iis)
    obtain b1 s1 where c: "domatch1_node eq2xyz s ci sec iis = (b1, s1)"
      by (cases "domatch1_node eq2xyz s ci sec iis")
    have "P s1"
    proof (rule domatch1_node_inv[where P = P, OF _ Cons.prems(1) c])
      fix s ii b s' assume "P s" "domatch1_candidate eq2xyz s ci sec ii = (b, s')"
      then show "P s'" by (rule assms(1))
    qed
    with Cons Some c show ?thesis by (cases b1) auto
  qed
qed

lemma domatch_loop_inv:
  assumes "\<And>s ci ii b s'. P s \<Longrightarrow> ci \<in> set is \<Longrightarrow> domatch1_candidate eq2xyz s ci sec ii = (b, s') \<Longrightarrow> P s'"
    and "P s" and "domatch_loop eq2xyz s t sec is = (b, s')"
  shows "P s'"
  using assms
proof (induction "is" arbitrary: s)
  case Nil
  then show ?case by simp
next
  case (Cons i "is")
  obtain b1 s1 where c: "domatch1 eq2xyz s t i sec = (b1, s1)"
    by (cases "domatch1 eq2xyz s t i sec")
  have "P s1"
  proof (rule domatch1_pixels_inv[where P = P, OF _ Cons.prems(2) c[unfolded domatch1_def]])
    fix s ii b s' assume "P s" "domatch1_candidate eq2xyz s i sec ii = (b, s')"
    then show "P s'" using Cons.prems(1)[of s i ii b s'] by simp
  qed
  moreover have "P s'" if "P s1" "domatch_loop eq2xyz s1 t sec is = (b, s')"
  proof (rule Cons.IH[OF _ that])
    fix s ci ii b s' assume "P s" "ci \<in> set is" "domatch1_candidate eq2xyz s ci sec ii = (b, s')"
    then show "P s'" using Cons.prems(1)[of s ci ii b s'] by simp
  qed
  ultimately show ?case using Cons.prems(3) c by (cases b1) auto
qed

section \<open>The heap built at capacity\<close>

text \<open>
  C1. When the buffer of an entry reaches size \<open>maxmatch > 1\<close> it is heapified, and the
  element at index 0 should then hold the smallest cosdist of the buffer. The code does
  not achieve this: \<^verbatim>\<open>match_build_heap\<close> swaps a child with its parent when the
  \<^emph>\<open>parent\<close> is the smaller one, which moves large values to the root, and its loop stops
  before the last element. On the sample engine with \<open>maxmatch = 3\<close> and the three
  secondaries of cosdist \<open>4/5\<close>, \<open>12/13\<close>, \<open>24/25\<close> (in this order), the call succeeds
  and the buffer, full after the third append, has \<open>12/13\<close> at index 0 and the smallest
  value \<open>4/5\<close> at index 1.
\<close>

theorem match_build_heap_root_not_smallest:
  "match_build_heap
     [\<lparr>cat_ind = 0, input_ind = 0, cosdist = 4 / 5\<rparr>,
      \<lparr>cat_ind = 0, input_ind = 1, cosdist = 12 / 13\<rparr>,
      \<lparr>cat_ind = 0, input_ind = 2, cosdist = 24 / 25\<rparr>] =
     [\<lparr>cat_ind = 0, input_ind = 1, cosdist = 12 / 13\<rparr>,
      \<lparr>cat_ind = 0, input_ind = 0, cosdist = 4 / 5\<rparr>,
      \<lparr>cat_ind = 0, input_ind = 2, cosdist = 24 / 25\<rparr>]
   \<and> PySMatchCat_match sample_eq2pix sample_eq2xyz sample_engine 3 0
       [(3687 / 100, 0), (2262 / 100, 0), (1626 / 100, 0)] =
     (True, sample_engine\<lparr>maxmatch := 3, nmatches := 3,
        cat := [(cat sample_engine ! 0)\<lparr>matches :=
          [\<lparr>cat_ind = 0, input_ind = 1, cosdist = 12 / 13\<rparr>,
           \<lparr>cat_ind = 0, input_ind = 0, cosdist = 4 / 5\<rparr>,
           \<lparr>cat_ind = 0, input_ind = 2, cosdist = 24 / 25\<rparr>]\<rparr>]\<rparr>)"
  by code_simp

section \<open>Buffer sizes\<close>

lemma match_prep_entry_simps [simp]:
  "matches (match_prep_entry mm e) = []"
  "point (match_prep_entry mm e) = point e"
  "disc_pixels (match_prep_entry mm e) = disc_pixels e"
  by (simp_all add: match_prep_entry_def vector_clear_def vector_resize_def vector_realloc_def)

lemma match_prep_simps [simp]:
  "cat (match_prep s) = map (match_prep_entry (maxmatch s)) (cat s)"
  "maxmatch (match_prep s) = maxmatch s"
  "hpix (match_prep s) = hpix s"
  "nmatches (match_prep s) = nmatches s"
  "tree (match_prep s) = tree s"
  by (simp_all add: match_prep_def)

lemma domatch_inv:
  assumes step: "\<And>s ci ii b s'. P s \<Longrightarrow> ci < length (cat self) \<Longrightarrow>
            domatch1_candidate eq2xyz s ci sec ii = (b, s') \<Longrightarrow> P s'"
    and init: "P (self\<lparr>nmatches := 0\<rparr>)"
    and fail: "P self"
    and run: "domatch eq2pix eq2xyz self sec = (b, s')"
  shows "P s'"
proof (cases "create_hpix_tree eq2pix (hpix self) sec")
  case None
  with run fail show ?thesis by (simp add: domatch_def)
next
  case (Some t)
  with run have l: "domatch_loop eq2xyz (self\<lparr>nmatches := 0\<rparr>) t sec [0 ..< length (cat self)] = (b, s')"
    by (simp add: domatch_def)
  show ?thesis
  proof (rule domatch_loop_inv[where P = P, OF _ init l])
    fix s ci ii b s'
    assume "P s" "ci \<in> set [0 ..< length (cat self)]" "domatch1_candidate eq2xyz s ci sec ii = (b, s')"
    then show "P s'" using step[of s ci ii b s'] by simp
  qed
qed

lemma ball_list_update:
  assumes "\<forall>e \<in> set xs. Q e" "k < length xs \<Longrightarrow> Q y"
  shows "\<forall>e \<in> set (xs[k := y]). Q e"
proof (cases "k < length xs")
  case True
  with assms show ?thesis using set_update_subset_insert[of xs k y] by auto
next
  case False
  then have "xs[k := y] = xs" by (simp add: list_update_beyond)
  with assms(1) show ?thesis by simp
qed

lemma length_of_mset_push: "mset ms2 = mset ms + {#m#} \<Longrightarrow> length ms2 = Suc (length ms)"
  by (metis size_mset size_union size_single add.commute plus_1_eq_Suc)

lemma candidate_bounded:
  fixes s :: PySMatchCat
  assumes "1 \<le> mm" "maxmatch s = mm" "\<forall>e \<in> set (cat s). int (length (matches e)) \<le> mm"
    and "domatch1_candidate eq2xyz s ci sec ii = (b, s')"
  shows "maxmatch s' = mm \<and> (\<forall>e \<in> set (cat s'). int (length (matches e)) \<le> mm)"
  using assms(4)
proof (cases rule: domatch1_candidate_result)
  case same
  with assms show ?thesis by simp
next
  case (push m ms2)
  have "length ms2 = Suc (length (matches (cat s ! ci)))"
    using push(5) by (rule length_of_mset_push)
  with push(4) assms(1,2) have "int (length ms2) \<le> mm" by simp
  then have "\<forall>e \<in> set ((cat s)[ci := (cat s ! ci)\<lparr>matches := ms2\<rparr>]). int (length (matches e)) \<le> mm"
    using assms(3) by (intro ball_list_update) simp_all
  with push(6) assms(2) show ?thesis by simp
next
  case (heap m)
  have "\<forall>e \<in> set ((cat s)[ci := (cat s ! ci)\<lparr>matches := match_heap_insert (matches (cat s ! ci)) m\<rparr>]).
          int (length (matches e)) \<le> mm"
    using assms(3) by (intro ball_list_update) simp_all
  with heap(6) assms(2) show ?thesis by simp
qed

text \<open>
  C5. In an in-memory match call with \<open>maxmatch \<ge> 1\<close> the buffer of every catalog
  entry holds at most \<open>maxmatch\<close> matches at every point during and after the call:
  \<^verbatim>\<open>match_prep\<close> leaves every buffer empty; the body of the candidate loop, run on any
  engine whose buffers are within the bound, leaves them within the bound (an append
  happens only below \<open>maxmatch\<close>, heapifying and the heap insertion keep the size);
  and so the engine returned by the call, successful or not, has all buffers within the
  bound.
\<close>

theorem buffer_size_at_most_maxmatch:
  assumes "1 \<le> mm"
  shows "(\<forall>e \<in> set (cat (match_prep (self\<lparr>maxmatch := mm, matching_self := ms\<rparr>))). length (matches e) = 0)
       \<and> (\<forall>(s::PySMatchCat) ci ii. maxmatch s = mm \<and> (\<forall>e \<in> set (cat s). int (length (matches e)) \<le> mm) \<longrightarrow>
            (\<forall>e \<in> set (cat (snd (domatch1_candidate eq2xyz s ci sec ii))). int (length (matches e)) \<le> mm)
            \<and> maxmatch (snd (domatch1_candidate eq2xyz s ci sec ii)) = mm)
       \<and> (\<forall>e \<in> set (cat (snd (PySMatchCat_match eq2pix eq2xyz self mm ms sec))). int (length (matches e)) \<le> mm)"
proof (intro conjI allI impI)
  show "\<forall>e \<in> set (cat (match_prep (self\<lparr>maxmatch := mm, matching_self := ms\<rparr>))). length (matches e) = 0"
    by auto
next
  fix s :: PySMatchCat and ci ii
  assume a: "maxmatch s = mm \<and> (\<forall>e \<in> set (cat s). int (length (matches e)) \<le> mm)"
  obtain b s' where c: "domatch1_candidate eq2xyz s ci sec ii = (b, s')"
    by (cases "domatch1_candidate eq2xyz s ci sec ii")
  from candidate_bounded[OF assms _ _ c] a
  show "\<forall>e \<in> set (cat (snd (domatch1_candidate eq2xyz s ci sec ii))). int (length (matches e)) \<le> mm"
    and "maxmatch (snd (domatch1_candidate eq2xyz s ci sec ii)) = mm"
    by (simp_all add: c)
next
  let ?P = "\<lambda>s::PySMatchCat. maxmatch s = mm \<and> (\<forall>e \<in> set (cat s). int (length (matches e)) \<le> mm)"
  let ?s0 = "match_prep (self\<lparr>maxmatch := mm, matching_self := ms\<rparr>)"
  obtain b s' where r: "domatch eq2pix eq2xyz ?s0 sec = (b, s')"
    by (cases "domatch eq2pix eq2xyz ?s0 sec")
  have "?P s'"
  proof (rule domatch_inv[where P = ?P, OF _ _ _ r])
    fix s :: PySMatchCat and ci ii b s'
    assume "?P s" "domatch1_candidate eq2xyz s ci sec ii = (b, s')"
    then show "?P s'" using candidate_bounded[OF assms, where s = s and s' = s'] by blast
  next
    show "?P (?s0\<lparr>nmatches := 0\<rparr>)" using assms by auto
  next
    show "?P ?s0" using assms by auto
  qed
  then show "\<forall>e \<in> set (cat (snd (PySMatchCat_match eq2pix eq2xyz self mm ms sec))). int (length (matches e)) \<le> mm"
    by (simp add: PySMatchCat_match_def r)
qed

text \<open>
  The sample engine matched with \<open>maxmatch = 2\<close> against four secondaries inside the
  disc: the buffer ends with two matches.
\<close>

theorem buffer_size_at_most_maxmatch_witness:
  "(1::int) \<le> 2 \<and>
   list_all (\<lambda>e. int (length (matches e)) \<le> 2)
     (cat (snd (PySMatchCat_match sample_eq2pix sample_eq2xyz sample_engine 2 0
        [(3687 / 100, 0), (2262 / 100, 0), (1626 / 100, 0), (0, 0)])))
   \<and> map (\<lambda>e. length (matches e))
     (cat (snd (PySMatchCat_match sample_eq2pix sample_eq2xyz sample_engine 2 0
        [(3687 / 100, 0), (2262 / 100, 0), (1626 / 100, 0), (0, 0)]))) = [2]"
proof -
  have h: "(1::int) \<le> 2" by simp
  have e: "map (\<lambda>e. length (matches e))
     (cat (snd (PySMatchCat_match sample_eq2pix sample_eq2xyz sample_engine 2 0
        [(3687 / 100, 0), (2262 / 100, 0), (1626 / 100, 0), (0, 0)]))) = [2]"
    by code_simp
  from buffer_size_at_most_maxmatch[OF h, where self = sample_engine and ms = 0
      and eq2xyz = sample_eq2xyz and eq2pix = sample_eq2pix
      and sec = "[(3687 / 100, 0), (2262 / 100, 0), (1626 / 100, 0), (0, 0)]"] e
  show ?thesis by (simp add: list_all_iff)
qed

section \<open>The match counter\<close>

lemma domatch_True_loop:
  assumes "domatch eq2pix eq2xyz self sec = (True, s')"
  obtains t where "create_hpix_tree eq2pix (hpix self) sec = Some t"
    and "domatch_loop eq2xyz (self\<lparr>nmatches := 0\<rparr>) t sec [0 ..< length (cat self)] = (True, s')"
  using assms by (cases "create_hpix_tree eq2pix (hpix self) sec") (auto simp: domatch_def)

lemma candidate_count:
  fixes s :: PySMatchCat
  assumes "ci < length (cat s)" and "domatch1_candidate eq2xyz s ci sec ii = (b, s')"
  shows "length (cat s') = length (cat s)
       \<and> nmatches s' - nmatches s =
           (\<Sum>e\<leftarrow>cat s'. int (length (matches e))) - (\<Sum>e\<leftarrow>cat s. int (length (matches e)))
       \<and> (\<forall>i < length (cat s). length (matches (cat s ! i)) \<le> length (matches (cat s' ! i)))"
  using assms(2)
proof (cases rule: domatch1_candidate_result)
  case same
  then show ?thesis by simp
next
  case (push m ms2)
  have l: "length ms2 = Suc (length (matches (cat s ! ci)))"
    using push(5) by (rule length_of_mset_push)
  show ?thesis
    using assms(1) l by (simp add: push(6) sum_list_map_update nth_list_update)
next
  case (heap m)
  show ?thesis
    using assms(1) by (simp add: heap(6) sum_list_map_update nth_list_update)
qed

text \<open>
  C6. After an in-memory match call that completes successfully, the counter
  \<^verbatim>\<open>nmatches\<close> of the engine equals the sum of the final buffer sizes over the catalog.
  The reason is stated with it: the body of the candidate loop, run on any engine for an
  entry of its catalog, changes \<^verbatim>\<open>nmatches\<close> by exactly the change of the total buffer
  size (one for an append, nothing for a heap replacement or a rejected candidate), and
  no buffer gets shorter.
\<close>

theorem nmatches_is_sum_of_buffer_sizes:
  assumes "PySMatchCat_match eq2pix eq2xyz self mm ms sec = (True, s')"
  shows "nmatches s' = (\<Sum>e\<leftarrow>cat s'. int (length (matches e)))
       \<and> (\<forall>(s::PySMatchCat) ci ii. ci < length (cat s) \<longrightarrow>
            (let s1 = snd (domatch1_candidate eq2xyz s ci sec ii)
             in nmatches s1 - nmatches s =
                  (\<Sum>e\<leftarrow>cat s1. int (length (matches e))) - (\<Sum>e\<leftarrow>cat s. int (length (matches e)))
                \<and> (\<forall>i < length (cat s). length (matches (cat s ! i)) \<le> length (matches (cat s1 ! i)))))"
proof (intro conjI allI impI)
  let ?s0 = "match_prep (self\<lparr>maxmatch := mm, matching_self := ms\<rparr>)"
  let ?N = "length (cat self)"
  let ?P = "\<lambda>s::PySMatchCat. length (cat s) = ?N \<and> nmatches s = (\<Sum>e\<leftarrow>cat s. int (length (matches e)))"
  from assms have "domatch eq2pix eq2xyz ?s0 sec = (True, s')"
    by (simp add: PySMatchCat_match_def)
  then obtain t where
    l: "domatch_loop eq2xyz (?s0\<lparr>nmatches := 0\<rparr>) t sec [0 ..< length (cat ?s0)] = (True, s')"
    by (rule domatch_True_loop)
  have z: "(\<Sum>e\<leftarrow>map (match_prep_entry mm) (cat self). int (length (matches e))) = 0"
    by (induction "cat self") (simp_all add: comp_def)
  have init: "?P (?s0\<lparr>nmatches := 0\<rparr>)" using z by simp
  have "?P s'"
  proof (rule domatch_loop_inv[where P = ?P, OF _ init l])
    fix s :: PySMatchCat and ci ii b s'
    assume p: "?P s" and "ci \<in> set [0 ..< length (cat ?s0)]"
      and c: "domatch1_candidate eq2xyz s ci sec ii = (b, s')"
    then have "ci < length (cat s)" by simp
    from candidate_count[OF this c] p show "?P s'" by simp
  qed
  then show "nmatches s' = (\<Sum>e\<leftarrow>cat s'. int (length (matches e)))" by simp
next
  fix s :: PySMatchCat and ci ii
  assume ci: "ci < length (cat s)"
  obtain b s1 where c: "domatch1_candidate eq2xyz s ci sec ii = (b, s1)"
    by (cases "domatch1_candidate eq2xyz s ci sec ii")
  from candidate_count[OF ci c]
  show "let s1 = snd (domatch1_candidate eq2xyz s ci sec ii)
        in nmatches s1 - nmatches s =
             (\<Sum>e\<leftarrow>cat s1. int (length (matches e))) - (\<Sum>e\<leftarrow>cat s. int (length (matches e)))
           \<and> (\<forall>i < length (cat s). length (matches (cat s ! i)) \<le> length (matches (cat s1 ! i)))"
    by (simp add: c Let_def)
qed

text \<open>
  The sample engine, holding a stale count of 7, matched with \<open>maxmatch = 2\<close> against
  four secondaries inside the disc: two appends, two heap insertions, and a count of 2.
\<close>

theorem nmatches_is_sum_of_buffer_sizes_witness:
  "PySMatchCat_match sample_eq2pix sample_eq2xyz (sample_engine\<lparr>nmatches := 7\<rparr>) 2 0
     [(3687 / 100, 0), (2262 / 100, 0), (1626 / 100, 0), (0, 0)] =
     (True, sample_engine\<lparr>maxmatch := 2, nmatches := 2,
        cat := [(cat sample_engine ! 0)\<lparr>matches :=
          [\<lparr>cat_ind = 0, input_ind = 1, cosdist = 12 / 13\<rparr>,
           \<lparr>cat_ind = 0, input_ind = 1, cosdist = 12 / 13\<rparr>]\<rparr>]\<rparr>)
   \<and> nmatches (sample_engine\<lparr>maxmatch := 2, nmatches := 2,
        cat := [(cat sample_engine ! 0)\<lparr>matches :=
          [\<lparr>cat_ind = 0, input_ind = 1, cosdist = 12 / 13\<rparr>,
           \<lparr>cat_ind = 0, input_ind = 1, cosdist = 12 / 13\<rparr>]\<rparr>]\<rparr>) = 2"
proof -
  have h: "PySMatchCat_match sample_eq2pix sample_eq2xyz (sample_engine\<lparr>nmatches := 7\<rparr>) 2 0
     [(3687 / 100, 0), (2262 / 100, 0), (1626 / 100, 0), (0, 0)] =
     (True, sample_engine\<lparr>maxmatch := 2, nmatches := 2,
        cat := [(cat sample_engine ! 0)\<lparr>matches :=
          [\<lparr>cat_ind = 0, input_ind = 1, cosdist = 12 / 13\<rparr>,
           \<lparr>cat_ind = 0, input_ind = 1, cosdist = 12 / 13\<rparr>]\<rparr>]\<rparr>)"
    by code_simp
  from nmatches_is_sum_of_buffer_sizes[OF h] h show ?thesis by simp
qed

section \<open>Emitted matches and the counter on the file path\<close>

subsection \<open>What the file path writes\<close>

lemma fprintf_match_simps [simp]:
  "fst (fprintf_match fobj ci ii c) \<noteq> 0"
  "snd (fprintf_match fobj ci ii c) = fobj @ [(ci, ii, c)]"
  by (simp_all add: fprintf_match_def match_line_def)

lemma domatch1_2file_node_props:
  assumes "domatch1_2file_node self p ii cs fobj incr = (st, incr', fobj')"
  shows "st \<and> (\<exists>new. fobj' = fobj @ new \<and> incr' = incr + length new
           \<and> (\<forall>t \<in> set new. cos_radius (point (cat self ! nat (fst t))) < snd (snd t)))"
  using assms
proof (induction cs arbitrary: fobj incr)
  case Nil
  then show ?case by simp
next
  case (Cons ci cs)
  show ?case
  proof (cases "matching_self self \<noteq> 0 \<and> int ci = int ii")
    case True
    with Cons.prems have "domatch1_2file_node self p ii cs fobj incr = (st, incr', fobj')"
      by simp
    from Cons.IH[OF this] show ?thesis .
  next
    case False
    define c where "c = pt_x (point (cat self ! ci)) * fst p + pt_y (point (cat self ! ci)) * fst (snd p)
                        + pt_z (point (cat self ! ci)) * snd (snd p)"
    show ?thesis
    proof (cases "cos_radius (point (cat self ! ci)) < c")
      case f: False
      with False Cons.prems have "domatch1_2file_node self p ii cs fobj incr = (st, incr', fobj')"
        by (auto simp: Let_def c_def)
      from Cons.IH[OF this] show ?thesis .
    next
      case True
      obtain nret f1 where fp: "fprintf_match fobj (int ci) (int ii) c = (nret, f1)"
        by (cases "fprintf_match fobj (int ci) (int ii) c")
      have nz: "nret \<noteq> 0" and f1: "f1 = fobj @ [(int ci, int ii, c)]"
        using fprintf_match_simps[of fobj "int ci" "int ii" c] fp by simp_all
      from False True Cons.prems fp nz
      have "domatch1_2file_node self p ii cs f1 (Suc incr) = (st, incr', fobj')"
        by (auto simp: Let_def c_def[symmetric])
      from Cons.IH[OF this] obtain new where
        n: "st" "fobj' = f1 @ new" "incr' = Suc incr + length new"
           "\<forall>t \<in> set new. cos_radius (point (cat self ! nat (fst t))) < snd (snd t)"
        by blast
      show ?thesis
        using n True f1
        by (intro conjI exI[of _ "(int ci, int ii, c) # new"]) simp_all
    qed
  qed
qed

lemma domatch1_2file_props:
  assumes "domatch1_2file eq2pix eq2xyz self ra dec ii fobj = (st, incr, fobj')"
  shows "\<exists>new. fobj' = fobj @ new \<and> (st \<longrightarrow> incr = length new) \<and> (\<not> st \<longrightarrow> new = [])
           \<and> (\<forall>t \<in> set new. cos_radius (point (cat self ! nat (fst t))) < snd (snd t))"
proof (cases "eq2pix (hpix self) ra dec")
  case None
  with assms show ?thesis by (simp add: domatch1_2file_def)
next
  case (Some hpixid)
  show ?thesis
  proof (cases "tree_find (tree self) (hpixid - npix (hpix self) div 2)")
    case None
    with assms Some show ?thesis by (simp add: domatch1_2file_def)
  next
    case s2: (Some cs)
    show ?thesis
    proof (cases "eq2xyz ra dec")
      case None
      with assms Some s2 show ?thesis by (simp add: domatch1_2file_def)
    next
      case s3: (Some p)
      with assms Some s2 have "domatch1_2file_node self p ii cs fobj 0 = (st, incr, fobj')"
        by (simp add: domatch1_2file_def)
      from domatch1_2file_node_props[OF this] show ?thesis by auto
    qed
  qed
qed

lemma domatch2file_all_loop_props:
  assumes "domatch2file_all_loop eq2pix eq2xyz self sec i fobj status = (st, s', fobj')"
  shows "\<exists>new. fobj' = fobj @ new \<and> nmatches s' = nmatches self + int (length new)
           \<and> cat s' = cat self \<and> maxmatch s' = maxmatch self
           \<and> (\<forall>t \<in> set new. cos_radius (point (cat self ! nat (fst t))) < snd (snd t))"
  using assms
proof (induction sec arbitrary: self i fobj status)
  case Nil
  then show ?case by simp
next
  case (Cons p ps)
  obtain b incr f1 where d: "domatch1_2file eq2pix eq2xyz self (fst p) (snd p) i fobj = (b, incr, f1)"
    by (cases "domatch1_2file eq2pix eq2xyz self (fst p) (snd p) i fobj") auto
  from domatch1_2file_props[OF d] obtain n1 where
    n1: "f1 = fobj @ n1" "b \<longrightarrow> incr = length n1" "\<not> b \<longrightarrow> n1 = []"
        "\<forall>t \<in> set n1. cos_radius (point (cat self ! nat (fst t))) < snd (snd t)"
    by blast
  show ?case
  proof (cases b)
    case False
    with Cons.prems d have "s' = self" "fobj' = f1" by simp_all
    moreover have "n1 = []" using n1(3) False by simp
    ultimately show ?thesis using n1 by simp
  next
    case True
    with Cons.prems d have
      "domatch2file_all_loop eq2pix eq2xyz (self\<lparr>nmatches := nmatches self + int incr\<rparr>) ps (Suc i) f1 True
         = (st, s', fobj')"
      by simp
    from Cons.IH[OF this] obtain n2 where
      n2: "fobj' = f1 @ n2" "nmatches s' = nmatches self + int incr + int (length n2)"
          "cat s' = cat self" "maxmatch s' = maxmatch self"
          "\<forall>t \<in> set n2. cos_radius (point (cat self ! nat (fst t))) < snd (snd t)"
      by auto
    show ?thesis
      using n1 n2 True by (intro exI[of _ "n1 @ n2"]) auto
  qed
qed


lemma write_matches_vector_eq:
  "write_matches_vector ms fobj =
     (True, fobj @ map (\<lambda>m. (cat_ind m, input_ind m, cosdist m)) ms)"
proof (induction ms arbitrary: fobj)
  case Nil
  show ?case by simp
next
  case (Cons m ms)
  obtain nret f1 where fp: "fprintf_match fobj (cat_ind m) (input_ind m) (cosdist m) = (nret, f1)"
    by (cases "fprintf_match fobj (cat_ind m) (input_ind m) (cosdist m)")
  have "nret \<noteq> 0" "f1 = fobj @ [(cat_ind m, input_ind m, cosdist m)]"
    using fprintf_match_simps[of fobj "cat_ind m" "input_ind m" "cosdist m"] fp by simp_all
  with fp Cons show ?case by simp
qed

lemma write_matches_loop_eq:
  "write_matches_loop es fobj =
     (True, fobj @ concat (map (\<lambda>e. map (\<lambda>m. (cat_ind m, input_ind m, cosdist m)) (matches e)) es))"
  by (induction es arbitrary: fobj) (simp_all add: write_matches_vector_eq)

lemma entry_update_emitted:
  assumes inv: "\<forall>i < length xs. \<forall>m \<in> set (matches (xs ! i)).
                  cat_ind m = int i \<and> cos_radius (point (xs ! i)) < cosdist m"
    and new: "\<forall>m \<in> set ms'. m \<in> set (matches (xs ! ci))
                \<or> (cat_ind m = int ci \<and> cos_radius (point (xs ! ci)) < cosdist m)"
  shows "\<forall>i < length (xs[ci := (xs ! ci)\<lparr>matches := ms'\<rparr>]).
           \<forall>m \<in> set (matches (xs[ci := (xs ! ci)\<lparr>matches := ms'\<rparr>] ! i)).
             cat_ind m = int i \<and> cos_radius (point (xs[ci := (xs ! ci)\<lparr>matches := ms'\<rparr>] ! i)) < cosdist m"
proof (intro allI impI ballI)
  fix i m
  assume i: "i < length (xs[ci := (xs ! ci)\<lparr>matches := ms'\<rparr>])"
    and m: "m \<in> set (matches (xs[ci := (xs ! ci)\<lparr>matches := ms'\<rparr>] ! i))"
  show "cat_ind m = int i \<and> cos_radius (point (xs[ci := (xs ! ci)\<lparr>matches := ms'\<rparr>] ! i)) < cosdist m"
  proof (cases "i = ci")
    case True
    with i m have "m \<in> set ms'" by simp
    with new inv i True show ?thesis by auto
  next
    case False
    with i m inv show ?thesis by simp
  qed
qed

lemma candidate_emitted:
  fixes s :: PySMatchCat
  assumes inv: "\<forall>i < length (cat s). \<forall>m \<in> set (matches (cat s ! i)).
                  cat_ind m = int i \<and> cos_radius (point (cat s ! i)) < cosdist m"
    and c: "domatch1_candidate eq2xyz s ci sec ii = (b, s')"
  shows "map point (cat s') = map point (cat s)
       \<and> (\<forall>i < length (cat s'). \<forall>m \<in> set (matches (cat s' ! i)).
             cat_ind m = int i \<and> cos_radius (point (cat s' ! i)) < cosdist m)"
  using c
proof (cases rule: domatch1_candidate_result)
  case same
  with inv show ?thesis by simp
next
  case (push m ms2)
  have "set ms2 = insert m (set (matches (cat s ! ci)))"
    using push(5) by (metis set_mset_mset set_mset_union set_mset_single Un_insert_right sup_bot.right_neutral)
  with push(1,2) have "\<forall>m' \<in> set ms2. m' \<in> set (matches (cat s ! ci))
                \<or> (cat_ind m' = int ci \<and> cos_radius (point (cat s ! ci)) < cosdist m')"
    by auto
  from entry_update_emitted[OF inv this] show ?thesis
    by (simp add: push(6) map_update_same)
next
  case (heap m)
  have "set (match_heap_insert (matches (cat s ! ci)) m) \<subseteq> insert m (set (matches (cat s ! ci)))"
    by (rule set_match_heap_insert)
  with heap(1,2) have "\<forall>m' \<in> set (match_heap_insert (matches (cat s ! ci)) m). m' \<in> set (matches (cat s ! ci))
                \<or> (cat_ind m' = int ci \<and> cos_radius (point (cat s ! ci)) < cosdist m')"
    by auto
  from entry_update_emitted[OF inv this] show ?thesis
    by (simp add: heap(6) map_update_same)
qed

lemma domatch_emitted:
  assumes "domatch eq2pix eq2xyz (match_prep self1) sec = (b, s')"
  shows "length (cat s') = length (cat self1)
       \<and> (\<forall>i < length (cat self1). \<forall>m \<in> set (matches (cat s' ! i)).
             cat_ind m = int i \<and> cos_radius (point (cat self1 ! i)) < cosdist m)"
proof -
  let ?P = "\<lambda>s::PySMatchCat. map point (cat s) = map point (cat self1)
       \<and> (\<forall>i < length (cat s). \<forall>m \<in> set (matches (cat s ! i)).
             cat_ind m = int i \<and> cos_radius (point (cat s ! i)) < cosdist m)"
  have "?P s'"
  proof (rule domatch_inv[where P = ?P, OF _ _ _ assms])
    fix s :: PySMatchCat and ci ii b s'
    assume "?P s" "domatch1_candidate eq2xyz s ci sec ii = (b, s')"
    then show "?P s'" using candidate_emitted[where s = s and s' = s'] by metis
  next
    show "?P (match_prep self1\<lparr>nmatches := 0\<rparr>)" by (simp add: comp_def)
  next
    show "?P (match_prep self1)" by (simp add: comp_def)
  qed
  then have m: "map point (cat s') = map point (cat self1)"
    and i: "\<forall>i < length (cat s'). \<forall>m \<in> set (matches (cat s' ! i)).
             cat_ind m = int i \<and> cos_radius (point (cat s' ! i)) < cosdist m"
    by simp_all
  from m have l: "length (cat s') = length (cat self1)" by (metis length_map)
  have "point (cat s' ! i) = point (cat self1 ! i)" if "i < length (cat self1)" for i
    using m l that by (metis nth_map)
  with i l show ?thesis by simp
qed

text \<open>
  C4. Every match emitted by any path has a cosdist strictly greater than the
  \<^verbatim>\<open>cos_radius\<close> of the primary entry it matches, so a candidate whose cosdist equals
  \<^verbatim>\<open>cos_radius\<close> is never emitted. In memory: each match in the buffer of entry \<open>i\<close>
  of the engine returned by a match call (whatever its status) names \<open>i\<close> as its
  \<^verbatim>\<open>cat_ind\<close> and lies strictly inside the disc of entry \<open>i\<close>. To a file: each triple
  passed to \<^verbatim>\<open>fprintf\<close> by \<^verbatim>\<open>match2file\<close>, in the unbounded and in the bounded mode, has
  a third component strictly greater than the \<^verbatim>\<open>cos_radius\<close> of the entry its first
  component names.
\<close>

theorem emitted_cosdist_exceeds_cos_radius:
  "(\<forall>i < length (cat self).
      \<forall>m \<in> set (matches (cat (snd (PySMatchCat_match eq2pix eq2xyz self mm ms sec)) ! i)).
        cat_ind m = int i \<and> cos_radius (point (cat self ! i)) < cosdist m)
   \<and> (\<forall>fobj. snd (snd (PySMatchCat_match2file eq2pix eq2xyz self mm ms sec can_open)) = Some fobj \<longrightarrow>
        (\<forall>t \<in> set fobj. cos_radius (point (cat self ! nat (fst t))) < snd (snd t)))"
proof (intro conjI allI impI)
  let ?self1 = "self\<lparr>maxmatch := mm, matching_self := ms\<rparr>"
  obtain b s' where r: "domatch eq2pix eq2xyz (match_prep ?self1) sec = (b, s')"
    by (cases "domatch eq2pix eq2xyz (match_prep ?self1) sec")
  fix i assume "i < length (cat self)"
  with domatch_emitted[OF r]
  show "\<forall>m \<in> set (matches (cat (snd (PySMatchCat_match eq2pix eq2xyz self mm ms sec)) ! i)).
          cat_ind m = int i \<and> cos_radius (point (cat self ! i)) < cosdist m"
    by (simp add: PySMatchCat_match_def r)
next
  let ?self1 = "self\<lparr>maxmatch := mm, matching_self := ms\<rparr>"
  fix fobj
  assume a: "snd (snd (PySMatchCat_match2file eq2pix eq2xyz self mm ms sec can_open)) = Some fobj"
  then have op: can_open
    by (cases can_open) (simp_all add: PySMatchCat_match2file_def domatch2file_def)
  show "\<forall>t \<in> set fobj. cos_radius (point (cat self ! nat (fst t))) < snd (snd t)"
  proof (cases "mm \<le> 0")
    case True
    obtain st s' f where d: "domatch2file_all eq2pix eq2xyz ?self1 sec [] = (st, s', f)"
      by (cases "domatch2file_all eq2pix eq2xyz ?self1 sec []") auto
    with a op True have "f = fobj"
      by (simp add: PySMatchCat_match2file_def domatch2file_def)
    with domatch2file_all_loop_props[OF d[unfolded domatch2file_all_def]] show ?thesis by auto
  next
    case False
    obtain b s' where r: "domatch eq2pix eq2xyz (match_prep ?self1) sec = (b, s')"
      by (cases "domatch eq2pix eq2xyz (match_prep ?self1) sec")
    note e = domatch_emitted[OF r]
    show ?thesis
    proof (cases b)
      case f: False
      with a op False r have "fobj = []"
        by (simp add: PySMatchCat_match2file_def domatch2file_def)
      then show ?thesis by simp
    next
      case True
      with a op False r have
        fo: "fobj = concat (map (\<lambda>e. map (\<lambda>m. (cat_ind m, input_ind m, cosdist m)) (matches e)) (cat s'))"
        by (simp add: PySMatchCat_match2file_def domatch2file_def write_matches_def write_matches_loop_eq)
      show ?thesis
      proof
        fix t assume "t \<in> set fobj"
        with fo obtain e m where em: "e \<in> set (cat s')" "m \<in> set (matches e)"
          "t = (cat_ind m, input_ind m, cosdist m)" by auto
        from em(1) obtain i where i: "i < length (cat s')" "e = cat s' ! i"
          by (metis in_set_conv_nth)
        with e em(2) have "cat_ind m = int i \<and> cos_radius (point (cat self ! i)) < cosdist m"
          by simp
        with em(3) show "cos_radius (point (cat self ! nat (fst t))) < snd (snd t)" by simp
      qed
    qed
  qed
qed


text \<open>
  The sample engine matched, without a bound, against the secondary on the rim of the
  disc (cosdist \<open>3/5\<close>, equal to \<^verbatim>\<open>cos_radius\<close>) and one inside it (cosdist \<open>4/5\<close>):
  only the second is kept in the buffer, and only the second is written to the file.
\<close>

theorem emitted_cosdist_exceeds_cos_radius_witness:
  "0 < length (cat sample_engine)
   \<and> matches (cat (snd (PySMatchCat_match sample_eq2pix sample_eq2xyz sample_engine 0 0
        [(5313 / 100, 0), (3687 / 100, 0)])) ! 0) = [\<lparr>cat_ind = 0, input_ind = 1, cosdist = 4 / 5\<rparr>]
   \<and> snd (snd (PySMatchCat_match2file sample_eq2pix sample_eq2xyz sample_engine_tree 0 0
        [(5313 / 100, 0), (3687 / 100, 0)] True)) = Some [(0, 1, 4 / 5)]
   \<and> cos_radius (point (cat sample_engine ! 0)) < 4 / 5"
proof -
  have h0: "0 < length (cat sample_engine)" by (simp add: sample_engine_def)
  have h1: "matches (cat (snd (PySMatchCat_match sample_eq2pix sample_eq2xyz sample_engine 0 0
        [(5313 / 100, 0), (3687 / 100, 0)])) ! 0) = [\<lparr>cat_ind = 0, input_ind = 1, cosdist = 4 / 5\<rparr>]"
    by code_simp
  have h2: "snd (snd (PySMatchCat_match2file sample_eq2pix sample_eq2xyz sample_engine_tree 0 0
        [(5313 / 100, 0), (3687 / 100, 0)] True)) = Some [(0, 1, 4 / 5)]"
    by code_simp
  from emitted_cosdist_exceeds_cos_radius[where self = sample_engine and eq2pix = sample_eq2pix
      and eq2xyz = sample_eq2xyz and mm = 0 and ms = 0 and sec = "[(5313 / 100, 0), (3687 / 100, 0)]"
      and can_open = True] h0 h1
  have "cos_radius (point (cat sample_engine ! 0)) < 4 / 5" by auto
  with h0 h1 h2 show ?thesis by simp
qed

text \<open>
  C10. The in-memory match call resets \<^verbatim>\<open>nmatches\<close> to 0 once the secondary tree is
  built, so the count it leaves does not depend on the count the engine held before: the
  whole result of the call is the same from an engine holding any count \<open>k\<close> as from one
  holding 0 (when the tree cannot be built, the old count stays). \<^verbatim>\<open>match2file\<close> in the
  unbounded mode (\<open>maxmatch \<le> 0\<close>) never resets the counter: it leaves the old count
  plus the number of lines it wrote.
\<close>

theorem nmatches_reset_by_match_kept_by_match2file:
  "(create_hpix_tree eq2pix (hpix self) sec \<noteq> None \<longrightarrow>
      PySMatchCat_match eq2pix eq2xyz (self\<lparr>nmatches := k\<rparr>) mm ms sec =
      PySMatchCat_match eq2pix eq2xyz (self\<lparr>nmatches := 0\<rparr>) mm ms sec)
   \<and> (create_hpix_tree eq2pix (hpix self) sec = None \<longrightarrow>
      nmatches (snd (PySMatchCat_match eq2pix eq2xyz (self\<lparr>nmatches := k\<rparr>) mm ms sec)) = k)
   \<and> (mm \<le> 0 \<longrightarrow>
      (\<exists>st s' fobj. PySMatchCat_match2file eq2pix eq2xyz self mm ms sec True = (st, s', Some fobj)
         \<and> nmatches s' = nmatches self + int (length fobj)))"
proof (intro conjI impI)
  assume "create_hpix_tree eq2pix (hpix self) sec \<noteq> None"
  then obtain t where "create_hpix_tree eq2pix (hpix self) sec = Some t" by auto
  then show "PySMatchCat_match eq2pix eq2xyz (self\<lparr>nmatches := k\<rparr>) mm ms sec =
      PySMatchCat_match eq2pix eq2xyz (self\<lparr>nmatches := 0\<rparr>) mm ms sec"
    by (simp add: PySMatchCat_match_def domatch_def match_prep_def)
next
  assume "create_hpix_tree eq2pix (hpix self) sec = None"
  then show "nmatches (snd (PySMatchCat_match eq2pix eq2xyz (self\<lparr>nmatches := k\<rparr>) mm ms sec)) = k"
    by (simp add: PySMatchCat_match_def domatch_def match_prep_def)
next
  let ?self1 = "self\<lparr>maxmatch := mm, matching_self := ms\<rparr>"
  assume mm: "mm \<le> 0"
  obtain st s' f where d: "domatch2file_all eq2pix eq2xyz ?self1 sec [] = (st, s', f)"
    by (cases "domatch2file_all eq2pix eq2xyz ?self1 sec []") auto
  from domatch2file_all_loop_props[OF d[unfolded domatch2file_all_def]]
  have "nmatches s' = nmatches self + int (length f)" by auto
  moreover from d mm have "PySMatchCat_match2file eq2pix eq2xyz self mm ms sec True = (st, s', Some f)"
    by (simp add: PySMatchCat_match2file_def domatch2file_def)
  ultimately show "\<exists>st s' fobj. PySMatchCat_match2file eq2pix eq2xyz self mm ms sec True = (st, s', Some fobj)
         \<and> nmatches s' = nmatches self + int (length fobj)"
    by blast
qed

text \<open>
  The sample engine holding a count of 7: a match call against two secondaries inside
  the disc leaves the count 2; an unbounded \<^verbatim>\<open>match2file\<close> of the same secondaries, on
  the engine with a tree over the primary, writes two lines and leaves the count 9.
\<close>

theorem nmatches_reset_by_match_kept_by_match2file_witness:
  "create_hpix_tree sample_eq2pix (hpix sample_engine) [(3687 / 100, 0), (2262 / 100, 0)] \<noteq> None
   \<and> nmatches (snd (PySMatchCat_match sample_eq2pix sample_eq2xyz (sample_engine\<lparr>nmatches := 7\<rparr>) 0 0
        [(3687 / 100, 0), (2262 / 100, 0)])) = 2
   \<and> (0::int) \<le> 0
   \<and> PySMatchCat_match2file sample_eq2pix sample_eq2xyz (sample_engine_tree\<lparr>nmatches := 7\<rparr>) 0 0
        [(3687 / 100, 0), (2262 / 100, 0)] True =
      (True, sample_engine_tree\<lparr>nmatches := 9\<rparr>, Some [(0, 0, 4 / 5), (0, 1, 12 / 13)])"
proof -
  have h1: "create_hpix_tree sample_eq2pix (hpix sample_engine) [(3687 / 100, 0), (2262 / 100, 0)] \<noteq> None"
    by code_simp
  have h2: "nmatches (snd (PySMatchCat_match sample_eq2pix sample_eq2xyz (sample_engine\<lparr>nmatches := 0\<rparr>) 0 0
        [(3687 / 100, 0), (2262 / 100, 0)])) = 2"
    by code_simp
  have h3: "PySMatchCat_match2file sample_eq2pix sample_eq2xyz (sample_engine_tree\<lparr>nmatches := 7\<rparr>) 0 0
        [(3687 / 100, 0), (2262 / 100, 0)] True =
      (True, sample_engine_tree\<lparr>nmatches := 9\<rparr>, Some [(0, 0, 4 / 5), (0, 1, 12 / 13)])"
    by code_simp
  from nmatches_reset_by_match_kept_by_match2file[where self = sample_engine and eq2pix = sample_eq2pix
      and eq2xyz = sample_eq2xyz and mm = 0 and ms = 0 and k = 7
      and sec = "[(3687 / 100, 0), (2262 / 100, 0)]"]
    nmatches_reset_by_match_kept_by_match2file[where self = "sample_engine_tree\<lparr>nmatches := 7\<rparr>"
      and eq2pix = sample_eq2pix and eq2xyz = sample_eq2xyz and mm = 0 and ms = 0
      and sec = "[(3687 / 100, 0), (2262 / 100, 0)]"] h1 h2 h3
  show ?thesis by simp
qed

section \<open>What the bounded buffer holds\<close>

text \<open>
  C2. At the end of an in-memory match call with \<open>maxmatch \<ge> 2\<close>, a buffer at capacity
  should hold the \<open>maxmatch\<close> largest cosdist values among the candidates that passed
  the geometric test for its entry. The code does not achieve this. On the sample engine
  with \<open>maxmatch = 2\<close> and the secondaries of cosdist \<open>24/25\<close>, \<open>4/5\<close>, \<open>12/13\<close> (in
  this order) the call succeeds and the buffer ends as \<open>[24/25, 4/5]\<close>: it is full after
  two appends with the larger value at index 0 (\<^verbatim>\<open>match_build_heap\<close> does not move the
  smallest value to the root), so the third candidate, compared with \<open>24/25\<close>, is turned
  away although it is closer than \<open>4/5\<close>. The unbounded call on the same input shows
  that all three candidates pass the test; the two largest are \<open>24/25\<close> and \<open>12/13\<close>.
\<close>

theorem full_buffer_misses_closer_candidate:
  "PySMatchCat_match sample_eq2pix sample_eq2xyz sample_engine 2 0
       [(1626 / 100, 0), (3687 / 100, 0), (2262 / 100, 0)] =
     (True, sample_engine\<lparr>maxmatch := 2, nmatches := 2,
        cat := [(cat sample_engine ! 0)\<lparr>matches :=
          [\<lparr>cat_ind = 0, input_ind = 0, cosdist = 24 / 25\<rparr>,
           \<lparr>cat_ind = 0, input_ind = 1, cosdist = 4 / 5\<rparr>]\<rparr>]\<rparr>)
   \<and> map cosdist (matches (cat (snd (PySMatchCat_match sample_eq2pix sample_eq2xyz sample_engine 0 0
       [(1626 / 100, 0), (3687 / 100, 0), (2262 / 100, 0)])) ! 0)) = [24 / 25, 4 / 5, 12 / 13]"
  by code_simp

text \<open>
  C9. In the in-memory path every secondary index is in the tree under one key and the
  disc pixels of an entry are distinct, so no buffer should ever hold two matches with
  the same \<^verbatim>\<open>input_ind\<close> for the same primary. The code does not achieve this. In
  \<^verbatim>\<open>match_heap_fix\<close> the value being sifted is read through the pointer
  \<^verbatim>\<open>v = &self->data[0]\<close>; the first promotion \<^verbatim>\<open>data[0] = data[jlo]\<close> overwrites it, and
  the final \<^verbatim>\<open>data[jhi] = *v\<close> stores the promoted child a second time. On the full
  buffer \<open>[4/5, 12/13]\<close> the insertion of the closer match of secondary 2 (\<open>24/25\<close>)
  yields the match of secondary 1 twice, and so does the match call on the sample engine
  with \<open>maxmatch = 2\<close> whose three secondaries (distinct, each tested once, the disc
  pixels of the entry distinct) arrive in this order.
\<close>

theorem heap_insert_duplicates_a_match:
  "match_heap_insert
     [\<lparr>cat_ind = 0, input_ind = 0, cosdist = 4 / 5\<rparr>,
      \<lparr>cat_ind = 0, input_ind = 1, cosdist = 12 / 13\<rparr>]
     \<lparr>cat_ind = 0, input_ind = 2, cosdist = 24 / 25\<rparr> =
     [\<lparr>cat_ind = 0, input_ind = 1, cosdist = 12 / 13\<rparr>,
      \<lparr>cat_ind = 0, input_ind = 1, cosdist = 12 / 13\<rparr>]
   \<and> distinct (disc_pixels (cat sample_engine ! 0))
   \<and> PySMatchCat_match sample_eq2pix sample_eq2xyz sample_engine 2 0
       [(3687 / 100, 0), (2262 / 100, 0), (1626 / 100, 0)] =
     (True, sample_engine\<lparr>maxmatch := 2, nmatches := 2,
        cat := [(cat sample_engine ! 0)\<lparr>matches :=
          [\<lparr>cat_ind = 0, input_ind = 1, cosdist = 12 / 13\<rparr>,
           \<lparr>cat_ind = 0, input_ind = 1, cosdist = 12 / 13\<rparr>]\<rparr>]\<rparr>)"
  by code_simp

section \<open>Counting lines\<close>

lemma count_lines_loop_eof: "eof_ind fobj \<Longrightarrow> count_lines_loop fobj n = n"
  by (subst count_lines_loop.simps) (simp add: feof_def)

lemma count_lines_loop_count:
  "count_lines_loop \<lparr>unread = bs, eof_ind = False\<rparr> n = n + int (count_list bs (CHR 0x0A))"
proof (induction bs arbitrary: n)
  case Nil
  have "char_of (- 1 :: int) \<noteq> CHR 0x0A" by code_simp
  then show ?case
    by (subst count_lines_loop.simps) (simp add: feof_def fgetc_def count_lines_loop_eof)
next
  case (Cons b bs)
  show ?case
    by (subst count_lines_loop.simps) (simp add: feof_def fgetc_def Cons)
qed

text \<open>
  C8. For every readable file, \<^verbatim>\<open>count_lines\<close> returns exactly the number of newline
  bytes (\<open>0x0A\<close>) of the file: on the stream opened on the bytes of the file, and through
  \<^verbatim>\<open>PySMatchCat_count_lines\<close> for every path that can be opened (a path that cannot
  raises the I/O error). The extra turn of the \<^verbatim>\<open>feof\<close> loop at the end of the file
  stores \<^verbatim>\<open>EOF\<close> in the \<^verbatim>\<open>char\<close>, which is the byte \<open>0xFF\<close> and not a newline, so
  nothing is counted twice.
\<close>

theorem count_lines_counts_newlines:
  "count_lines (fopen_r bytes) = int (count_list bytes (CHR 0x0A))
   \<and> PySMatchCat_count_lines fs filename =
       (case fs filename of
          None \<Rightarrow> Inl IOError
        | Some bytes \<Rightarrow> Inr (int (count_list bytes (CHR 0x0A))))"
  by (simp add: count_lines_def fopen_r_def PySMatchCat_count_lines_def count_lines_loop_count
           split: option.split)

lemma count_lines_examples:
  "count_lines (fopen_r []) = 0"
  "count_lines (fopen_r [CHR ''a'', CHR 0x0A, CHR ''b'']) = 1"
  "count_lines (fopen_r [CHR ''a'', CHR 0x0A, CHR ''b'', CHR 0x0A]) = 2"
  "count_lines (fopen_r [CHR 0x0A, CHR 0xFF, CHR 0x0A]) = 2"
  by code_simp+

section \<open>Facts about the text of a match\<close>

subsection \<open>Decimal digits\<close>

lemma digit_char_is_digit:
  assumes "0 \<le> n" "n < 10"
  shows "is_digit (digit_char n) \<and> digit_val (digit_char n) = n"
proof -
  have "\<forall>k \<in> set [0 .. 9]. is_digit (digit_char k) \<and> digit_val (digit_char k) = k"
    by code_simp
  moreover have "n \<in> set [0 .. 9]" using assms by simp
  ultimately show ?thesis by blast
qed

lemma dec_digits_digits: "0 \<le> n \<Longrightarrow> c \<in> set (dec_digits n) \<Longrightarrow> is_digit c"
proof (induction n arbitrary: c rule: dec_digits.induct)
  case (1 n)
  show ?case
  proof (cases "n < 10")
    case True
    with "1.prems" show ?thesis
      by (subst (asm) dec_digits.simps) (simp add: digit_char_is_digit)
  next
    case False
    with "1.prems"(2) have "c \<in> set (dec_digits (n div 10)) \<or> c = digit_char (n mod 10)"
      by (subst (asm) dec_digits.simps) auto
    moreover have "0 \<le> n div 10" using "1.prems"(1) by simp
    moreover have "is_digit (digit_char (n mod 10))"
      by (rule digit_char_is_digit[THEN conjunct1]) simp_all
    ultimately show ?thesis using "1.IH"[OF False] by blast
  qed
qed

lemma dec_digits_nonempty [simp]: "dec_digits n \<noteq> []"
  by (subst dec_digits.simps) simp

lemma length_dec_digits_upper: "0 \<le> n \<Longrightarrow> n < 10 ^ length (dec_digits n)"
proof (induction n rule: dec_digits.induct)
  case (1 n)
  show ?case
  proof (cases "n < 10")
    case True
    then show ?thesis by (subst dec_digits.simps) simp
  next
    case False
    have "n div 10 < 10 ^ length (dec_digits (n div 10))"
      using "1.IH"[OF False] "1.prems" by simp
    then have "n < 10 * 10 ^ length (dec_digits (n div 10))" by linarith
    with False show ?thesis by (subst dec_digits.simps) simp
  qed
qed

lemma length_dec_digits_lower: "1 \<le> n \<Longrightarrow> 10 ^ (length (dec_digits n) - 1) \<le> n"
proof (induction n rule: dec_digits.induct)
  case (1 n)
  show ?case
  proof (cases "n < 10")
    case True
    with "1.prems" show ?thesis by (subst dec_digits.simps) simp
  next
    case False
    then have "1 \<le> n div 10" by simp
    from "1.IH"[OF False this] have "10 ^ (length (dec_digits (n div 10)) - 1) \<le> n div 10" .
    then have "10 * 10 ^ (length (dec_digits (n div 10)) - 1) \<le> n" by linarith
    moreover have "length (dec_digits (n div 10)) \<ge> 1"
      by (cases "dec_digits (n div 10)") simp_all
    ultimately have "10 ^ length (dec_digits (n div 10)) \<le> n"
      by (metis One_nat_def Suc_pred less_eq_Suc_le power_Suc)
    with False show ?thesis by (subst dec_digits.simps) simp
  qed
qed

lemma length_dec_digits_eq:
  assumes "10 ^ (P - 1) \<le> n" "n < 10 ^ P" "0 < P"
  shows "length (dec_digits n) = P"
proof -
  have n1: "1 \<le> n" using assms(1) by (smt (verit) one_le_power)
  have "(10::int) ^ (length (dec_digits n) - 1) < 10 ^ P"
    using length_dec_digits_lower[OF n1] assms(2) by (rule le_less_trans)
  then have a: "length (dec_digits n) - 1 < P"
    by (rule power_less_imp_less_exp[rotated]) simp
  have "(10::int) ^ (P - 1) < 10 ^ length (dec_digits n)"
    using assms(1) length_dec_digits_upper[of n] n1 by linarith
  then have b: "P - 1 < length (dec_digits n)"
    by (rule power_less_imp_less_exp[rotated]) simp
  from a b show ?thesis by simp
qed

lemma digits_val_append:
  "digits_val (xs @ ys) = digits_val xs * 10 ^ length ys + digits_val ys"
proof -
  define f where "f = (\<lambda>a c. 10 * a + digit_val c)"
  have fx: "f x y = 10 * x + digit_val y" for x y by (simp add: f_def)
  have gen: "foldl f a ys = a * 10 ^ length ys + foldl f 0 ys" for a
  proof (induction ys arbitrary: a rule: rev_induct)
    case Nil
    show ?case by simp
  next
    case (snoc y ys)
    have "foldl f a (ys @ [y]) = f (foldl f a ys) y" by simp
    also have "\<dots> = 10 * foldl f a ys + digit_val y" by (rule fx)
    also have "\<dots> = 10 * (a * 10 ^ length ys + foldl f 0 ys) + digit_val y"
      by (simp only: snoc[of a])
    also have "\<dots> = a * 10 ^ length (ys @ [y]) + (10 * foldl f 0 ys + digit_val y)"
      by (simp only: length_append_singleton power_Suc distrib_left mult.assoc mult.left_commute add.assoc)
    also have "10 * foldl f 0 ys + digit_val y = f (foldl f 0 ys) y" by (rule fx[symmetric])
    also have "\<dots> = foldl f 0 (ys @ [y])" by simp
    finally show ?case .
  qed
  have "foldl f 0 (xs @ ys) = foldl f (foldl f 0 xs) ys" by simp
  also have "\<dots> = foldl f 0 xs * 10 ^ length ys + foldl f 0 ys" by (rule gen)
  finally show ?thesis unfolding digits_val_def f_def .
qed

lemma digits_val_simps [simp]: "digits_val [] = 0" "digits_val [c] = digit_val c"
  by (simp_all add: digits_val_def)

lemma digits_val_dec_digits: "0 \<le> n \<Longrightarrow> digits_val (dec_digits n) = n"
proof (induction n rule: dec_digits.induct)
  case (1 n)
  show ?case
  proof (cases "n < 10")
    case True
    with "1.prems" show ?thesis
      by (subst dec_digits.simps) (simp add: digit_char_is_digit)
  next
    case False
    have "digits_val (dec_digits (n div 10)) = n div 10"
      using "1.IH"[OF False] "1.prems" by simp
    moreover have "digit_val (digit_char (n mod 10)) = n mod 10"
      by (rule digit_char_is_digit[THEN conjunct2]) simp_all
    ultimately show ?thesis using False
      by (subst dec_digits.simps) (simp add: digits_val_append)
  qed
qed

subsection \<open>Powers of ten and the decimal exponent\<close>

lemma pow10_powi: "pow10 k = 10 powi k"
  by (simp add: pow10_def power_int_def field_simps power_inverse)

lemma pow10_pos [simp]: "0 < pow10 k"
  by (simp add: pow10_powi)

lemma pow10_add: "pow10 (j + k) = pow10 j * pow10 k"
  by (simp add: pow10_powi power_int_add)

lemma pow10_nat [simp]: "pow10 (int n) = 10 ^ n"
  by (simp add: pow10_def)

lemma pow10_neg: "pow10 (- int n) = 1 / 10 ^ n"
  by (auto simp: pow10_def)

lemma pow10_mono: "j \<le> k \<Longrightarrow> pow10 j \<le> pow10 k"
  by (simp add: pow10_powi power_int_increasing)

lemma decimal_exponent_bounds:
  assumes "0 < a"
  shows "pow10 (decimal_exponent a) \<le> a \<and> a < pow10 (decimal_exponent a + 1)"
proof -
  obtain n d where q: "quotient_of a = (n, d)" by (cases "quotient_of a")
  have d: "0 < d" using quotient_of_denom_pos[OF q] .
  have a: "a = of_int n / of_int d" using quotient_of_div[OF q] .
  have n: "0 < n" using assms d a by (simp add: zero_less_divide_iff)
  define dn where "dn = length (dec_digits n)"
  define dd where "dd = length (dec_digits d)"
  define k where "k = int dn - int dd"
  have dn1: "1 \<le> dn" and dd1: "1 \<le> dd"
    unfolding dn_def dd_def by (cases "dec_digits n"; simp) (cases "dec_digits d"; simp)
  have nu: "(of_int n :: rat) < 10 ^ dn"
    using length_dec_digits_upper[of n] n unfolding dn_def
    by (metis less_imp_le of_int_less_iff of_int_numeral of_int_power)
  have nl: "(10 :: rat) ^ (dn - 1) \<le> of_int n"
    using length_dec_digits_lower[of n] n unfolding dn_def
    by (metis int_one_le_iff_zero_less of_int_le_iff of_int_numeral of_int_power)
  have du: "(of_int d :: rat) < 10 ^ dd"
    using length_dec_digits_upper[of d] d unfolding dd_def
    by (metis less_imp_le of_int_less_iff of_int_numeral of_int_power)
  have dl: "(10 :: rat) ^ (dd - 1) \<le> of_int d"
    using length_dec_digits_lower[of d] d unfolding dd_def
    by (metis int_one_le_iff_zero_less of_int_le_iff of_int_numeral of_int_power)
  have dpos: "(0::rat) < of_int d" using d by simp
  have up: "a < pow10 (k + 1)"
  proof -
    have "a * 10 ^ (dd - 1) \<le> a * of_int d" using dl assms by simp
    also have "\<dots> = of_int n" using a dpos by simp
    also have "\<dots> < 10 ^ dn" by (rule nu)
    finally have "a < 10 ^ dn / 10 ^ (dd - 1)" by (simp add: pos_less_divide_eq)
    also have "\<dots> = pow10 (int dn) * pow10 (- int (dd - 1))"
      unfolding pow10_nat pow10_neg by simp
    also have "\<dots> = pow10 (int dn + - int (dd - 1))"
      by (simp only: pow10_add)
    also have "int dn + - int (dd - 1) = k + 1"
      using dd1 by (simp add: k_def of_nat_diff)
    finally show ?thesis .
  qed
  have lo: "pow10 (k - 1) \<le> a"
  proof -
    have "k - 1 = int (dn - 1) + - int dd"
      using dn1 by (simp add: k_def of_nat_diff)
    then have "pow10 (k - 1) = pow10 (int (dn - 1)) * pow10 (- int dd)"
      by (simp only: pow10_add)
    also have "\<dots> = 10 ^ (dn - 1) / 10 ^ dd" unfolding pow10_nat pow10_neg by simp
    also have "\<dots> \<le> of_int n / 10 ^ dd" using nl by (simp add: divide_right_mono)
    also have "\<dots> \<le> of_int n / of_int d"
      using du dpos n by (intro divide_left_mono) simp_all
    finally show ?thesis using a by simp
  qed
  show ?thesis
  proof (cases "pow10 k \<le> a")
    case True
    then have "decimal_exponent a = k"
      by (simp add: decimal_exponent_def q dn_def dd_def k_def)
    with True up show ?thesis by simp
  next
    case False
    then have "decimal_exponent a = k - 1"
      by (simp add: decimal_exponent_def q dn_def dd_def k_def)
    with False lo show ?thesis by simp
  qed
qed

lemma round_half_even_bounds:
  "\<lfloor>q\<rfloor> \<le> round_half_even q \<and> round_half_even q \<le> \<lfloor>q\<rfloor> + 1"
  by (simp add: round_half_even_def Let_def)

lemma g_digits_bounds:
  assumes "0 < a" "0 < P" "g_digits P a = (m, X)"
  shows "10 ^ (P - 1) \<le> m \<and> m < 10 ^ P"
proof -
  define e10 where "e10 = decimal_exponent a"
  define q where "q = a * pow10 (int P - 1 - e10)"
  define m0 where "m0 = round_half_even q"
  have b: "pow10 e10 \<le> a" "a < pow10 (e10 + 1)"
    using decimal_exponent_bounds[OF assms(1)] by (simp_all add: e10_def)
  have "pow10 e10 * pow10 (int P - 1 - e10) \<le> q"
    unfolding q_def using b(1) by (simp add: mult_right_mono less_imp_le)
  then have ql: "10 ^ (P - 1) \<le> q"
    unfolding pow10_add[symmetric] using assms(2) by (simp add: pow10_def nat_diff_distrib)
  have "q < pow10 (e10 + 1) * pow10 (int P - 1 - e10)"
    unfolding q_def using b(2) by (simp add: mult_strict_right_mono)
  then have qu: "q < 10 ^ P"
    unfolding pow10_add[symmetric] by (simp add: pow10_def)
  have "(10::int) ^ (P - 1) \<le> \<lfloor>q\<rfloor>"
    using ql by (metis le_floor_iff of_int_numeral of_int_power)
  moreover have "\<lfloor>q\<rfloor> < 10 ^ P"
    using qu by (metis floor_less_iff of_int_numeral of_int_power)
  ultimately have m0: "10 ^ (P - 1) \<le> m0" "m0 \<le> 10 ^ P"
    using round_half_even_bounds[of q] by (simp_all add: m0_def)
  have "(10::int) ^ (P - 1) < 10 ^ P" using assms(2) by simp
  with assms(3) m0 show ?thesis
    by (auto simp: g_digits_def Let_def e10_def[symmetric] q_def[symmetric] m0_def[symmetric]
             split: if_splits)
qed

subsection \<open>The characters of the fields\<close>

lemma is_digit_simps [simp]:
  "\<not> is_digit (CHR '' '')" "\<not> is_digit (CHR 0x0A)" "\<not> is_digit (CHR ''.'')"
  "\<not> is_digit (CHR ''e'')" "\<not> is_digit (CHR ''E'')" "\<not> is_digit (CHR ''-'')"
  "\<not> is_digit (CHR ''+'')" "is_digit (CHR ''0'')"
  by (simp_all add: is_digit_def)

lemma fmt_ld_chars: "c \<in> set (fmt_ld n) \<Longrightarrow> is_digit c \<or> c = CHR ''-''"
proof (cases "n < 0")
  case True
  assume "c \<in> set (fmt_ld n)"
  with True have "c = CHR ''-'' \<or> c \<in> set (dec_digits (- n))" by (simp add: fmt_ld_def)
  then show ?thesis using dec_digits_digits[of "- n" c] True by auto
next
  case False
  assume "c \<in> set (fmt_ld n)"
  with False have "c \<in> set (dec_digits n)" by (simp add: fmt_ld_def)
  then show ?thesis using dec_digits_digits[of n c] False by auto
qed

lemma fmt_ld_nonempty [simp]: "fmt_ld n \<noteq> []"
  by (simp add: fmt_ld_def)

lemma strip_zeros_subset: "set (strip_zeros s) \<subseteq> set s"
  by (metis strip_zeros_def set_dropWhileD set_rev subsetI)

lemma strip_zeros_length: "length (strip_zeros s) \<le> length s"
  unfolding strip_zeros_def by (metis length_dropWhile_le length_rev)

lemma with_fraction_chars:
  "c \<in> set (with_fraction ip fr) \<Longrightarrow> c \<in> set ip \<or> c \<in> set fr \<or> c = CHR ''.''"
  using strip_zeros_subset[of fr] by (auto simp: with_fraction_def Let_def split: if_splits)

lemma fmt_exponent_chars:
  assumes "c \<in> set (fmt_exponent X)"
  shows "is_digit c \<or> c = CHR ''e'' \<or> c = CHR ''-'' \<or> c = CHR ''+''"
proof -
  from assms have "c = CHR ''e'' \<or> c = CHR ''-'' \<or> c = CHR ''+'' \<or> c = CHR ''0''
      \<or> c \<in> set (dec_digits \<bar>X\<bar>)"
    by (auto simp: fmt_exponent_def split: if_splits)
  then show ?thesis using dec_digits_digits[of "\<bar>X\<bar>" c] by auto
qed

lemma g_body_chars:
  assumes "0 \<le> m" "c \<in> set (g_body P m X)"
  shows "is_digit c \<or> c = CHR ''.'' \<or> c = CHR ''e'' \<or> c = CHR ''-'' \<or> c = CHR ''+''"
proof -
  have d: "is_digit c" if "c \<in> set (dec_digits m)" for c
    using that assms(1) by (rule dec_digits_digits[rotated])
  have t: "is_digit c" if "c \<in> set (take k (dec_digits m))" for c k
    using d that by (meson in_set_takeD)
  have dr: "is_digit c" if "c \<in> set (drop k (dec_digits m))" for c k
    using d that by (meson in_set_dropD)
  from assms(2) show ?thesis
    by (auto simp: g_body_def Let_def split: if_splits
        dest!: with_fraction_chars fmt_exponent_chars dest: t dr d)
qed

lemma g_digits_nonneg:
  assumes "0 < a" "g_digits P a = (m, X)"
  shows "0 \<le> m"
proof -
  have "0 \<le> a * pow10 (int P - 1 - decimal_exponent a)"
    using assms(1) by (simp add: less_imp_le)
  then have "0 \<le> \<lfloor>a * pow10 (int P - 1 - decimal_exponent a)\<rfloor>" by simp
  then have "0 \<le> round_half_even (a * pow10 (int P - 1 - decimal_exponent a))"
    using round_half_even_bounds[of "a * pow10 (int P - 1 - decimal_exponent a)"] by linarith
  with assms(2) show ?thesis
    by (auto simp: g_digits_def Let_def split: if_splits)
qed

lemma fmt_g_chars:
  assumes "c \<in> set (fmt_g prec v)"
  shows "is_digit c \<or> c = CHR ''.'' \<or> c = CHR ''e'' \<or> c = CHR ''-'' \<or> c = CHR ''+''"
proof (cases "v = 0")
  case True
  with assms show ?thesis by (simp add: fmt_g_def)
next
  case False
  define P where "P = (if prec = 0 then 1 else prec)"
  obtain m X where g: "g_digits P \<bar>v\<bar> = (m, X)" by (cases "g_digits P \<bar>v\<bar>")
  have m: "0 \<le> m" using g_digits_nonneg[OF _ g] False by simp
  from assms False g have "c = CHR ''-'' \<or> c \<in> set (g_body P m X)"
    by (auto simp: fmt_g_def Let_def P_def[symmetric] split: if_splits)
  with g_body_chars[OF m] show ?thesis by blast
qed

subsection \<open>Splitting a text at a separator\<close>

lemma split_acc_no_sep: "sep \<notin> set l \<Longrightarrow> split_acc sep cur l = [cur @ l]"
  by (induction l arbitrary: cur) auto

lemma split_acc_sep:
  "sep \<notin> set l \<Longrightarrow> split_acc sep cur (l @ sep # r) = (cur @ l) # split_acc sep [] r"
  by (induction l arbitrary: cur) auto

lemma split_three:
  assumes "sep \<notin> set a" "sep \<notin> set b" "sep \<notin> set c"
  shows "split_at sep (a @ [sep] @ b @ [sep] @ c) = [a, b, c]"
  using assms by (simp add: split_at_def split_acc_sep split_acc_no_sep)

lemma line_body_no_newline: "CHR 0x0A \<notin> set (line_body t)"
  by (auto simp: line_body_def dest!: fmt_ld_chars fmt_g_chars)

lemma file_text_Cons: "file_text (t # ts) = line_body t @ CHR 0x0A # file_text ts"
  by (cases t) (simp add: file_text_def match_line_def line_body_def)

lemma split_lines_file_text:
  "split_at (CHR 0x0A) (file_text fobj) = map line_body fobj @ [[]]"
proof (induction fobj)
  case Nil
  show ?case by (simp add: file_text_def split_at_def)
next
  case (Cons t ts)
  show ?case
    using Cons line_body_no_newline[of t]
    by (simp add: file_text_Cons split_at_def split_acc_sep)
qed

lemma split_fields_line_body:
  "split_at (CHR '' '') (line_body t) = [fmt_ld (fst t), fmt_ld (fst (snd t)), fmt_g 16 (snd (snd t))]"
proof -
  have "CHR '' '' \<notin> set (fmt_ld n)" for n by (auto dest!: fmt_ld_chars)
  moreover have "CHR '' '' \<notin> set (fmt_g 16 v)" for v by (auto dest!: fmt_g_chars)
  ultimately show ?thesis
    using split_three[of "CHR '' ''" "fmt_ld (fst t)" "fmt_ld (fst (snd t))" "fmt_g 16 (snd (snd t))"]
    by (simp add: line_body_def)
qed

subsection \<open>The significant digits of the cosdist field\<close>

lemma strip_zeros_append:
  "strip_zeros (xs @ ys) = (if strip_zeros ys = [] then strip_zeros xs else xs @ strip_zeros ys)"
  by (auto simp: strip_zeros_def dropWhile_append dropWhile_eq_Nil_conv)

lemma strip_zeros_replicate [simp]: "strip_zeros (replicate k (CHR ''0'')) = []"
  by (simp add: strip_zeros_def dropWhile_eq_Nil_conv)

lemma dropWhile_replicate_zeros [simp]:
  "dropWhile (\<lambda>c. c = CHR ''0'') (replicate k (CHR ''0'') @ xs) = dropWhile (\<lambda>c. c = CHR ''0'') xs"
  by (induction k) simp_all

lemma filter_digits_id: "\<forall>c \<in> set xs. is_digit c \<Longrightarrow> filter is_digit xs = xs"
  by (induction xs) simp_all

lemma with_fraction_filter:
  assumes "\<forall>c \<in> set ip. is_digit c" "\<forall>c \<in> set fr. is_digit c"
  shows "filter is_digit (with_fraction ip fr) = ip @ strip_zeros fr"
    and "CHR ''e'' \<notin> set (with_fraction ip fr)"
proof -
  have s: "\<forall>c \<in> set (strip_zeros fr). is_digit c"
    using assms(2) strip_zeros_subset[of fr] by auto
  show "filter is_digit (with_fraction ip fr) = ip @ strip_zeros fr"
    using assms(1) s by (simp add: with_fraction_def Let_def filter_digits_id)
  show "CHR ''e'' \<notin> set (with_fraction ip fr)"
    using assms(1) s by (auto simp: with_fraction_def Let_def)
qed

lemma significant_digits_with_fraction:
  assumes "\<forall>c \<in> set ip. is_digit c" "\<forall>c \<in> set fr. is_digit c"
    and "r = [] \<or> hd r = CHR ''e''"
  shows "significant_digits (with_fraction ip fr @ r)
         = length (dropWhile (\<lambda>c. c = CHR ''0'') (ip @ strip_zeros fr))"
proof -
  have "takeWhile (\<lambda>c. c \<noteq> CHR ''e'') (with_fraction ip fr @ r) = with_fraction ip fr"
  proof (cases r)
    case Nil
    then show ?thesis using with_fraction_filter(2)[OF assms(1,2)] by (auto simp: takeWhile_eq_all_conv)
  next
    case (Cons c cs)
    with assms(3) have "c = CHR ''e''" by simp
    with Cons show ?thesis
      using with_fraction_filter(2)[OF assms(1,2)] by (auto simp: takeWhile_tail takeWhile_eq_all_conv)
  qed
  then show ?thesis
    by (simp add: significant_digits_def with_fraction_filter(1)[OF assms(1,2)])
qed

lemma significant_digits_g_body:
  assumes "0 \<le> m"
  shows "significant_digits (g_body P m X) \<le> length (dec_digits m)"
proof -
  let ?z = "\<lambda>c. c = CHR ''0''"
  let ?ds = "dec_digits m"
  have d: "\<forall>c \<in> set ?ds. is_digit c" using assms dec_digits_digits by blast
  have t: "\<forall>c \<in> set (take k ?ds). is_digit c" for k using d by (meson in_set_takeD)
  have dr: "\<forall>c \<in> set (drop k ?ds). is_digit c" for k using d by (meson in_set_dropD)
  have split_bound: "length (dropWhile ?z (take k ?ds @ strip_zeros (drop k ?ds))) \<le> length ?ds" for k
  proof -
    have "length (dropWhile ?z (take k ?ds @ strip_zeros (drop k ?ds)))
          \<le> length (take k ?ds @ strip_zeros (drop k ?ds))"
      by (rule length_dropWhile_le)
    also have "\<dots> \<le> length (take k ?ds) + length (drop k ?ds)"
      using strip_zeros_length[of "drop k ?ds"] by simp
    also have "\<dots> = length ?ds" by simp
    finally show ?thesis .
  qed
  show ?thesis
  proof (cases "- 4 \<le> X \<and> X < int P")
    case True
    show ?thesis
    proof (cases "0 \<le> X")
      case x: True
      have "significant_digits (g_body P m X)
            = significant_digits (with_fraction (take (nat X + 1) ?ds) (drop (nat X + 1) ?ds) @ [])"
        using True x by (simp add: g_body_def Let_def)
      also have "\<dots> = length (dropWhile ?z (take (nat X + 1) ?ds @ strip_zeros (drop (nat X + 1) ?ds)))"
        by (rule significant_digits_with_fraction[OF t dr]) simp
      finally show ?thesis using split_bound[of "nat X + 1"] by simp
    next
      case x: False
      let ?fr = "replicate (nat (- X - 1)) (CHR ''0'') @ ?ds"
      have fr: "\<forall>c \<in> set ?fr. is_digit c" using d by auto
      have "significant_digits (g_body P m X) = significant_digits (with_fraction ''0'' ?fr @ [])"
        using True x by (simp add: g_body_def Let_def)
      also have "\<dots> = length (dropWhile ?z (''0'' @ strip_zeros ?fr))"
        by (rule significant_digits_with_fraction[OF _ fr]) simp_all
      also have "\<dots> = length (dropWhile ?z (strip_zeros ?fr))" by simp
      also have "\<dots> \<le> length ?ds"
      proof (cases "strip_zeros ?ds = []")
        case True
        then show ?thesis by (simp add: strip_zeros_append)
      next
        case False
        then have "length (dropWhile ?z (strip_zeros ?fr)) = length (dropWhile ?z (strip_zeros ?ds))"
          by (simp add: strip_zeros_append)
        also have "\<dots> \<le> length (strip_zeros ?ds)" by (rule length_dropWhile_le)
        also have "\<dots> \<le> length ?ds" by (rule strip_zeros_length)
        finally show ?thesis .
      qed
      finally show ?thesis .
    qed
  next
    case False
    have "significant_digits (g_body P m X)
          = significant_digits (with_fraction (take 1 ?ds) (drop 1 ?ds) @ fmt_exponent X)"
      using False by (auto simp: g_body_def Let_def)
    also have "\<dots> = length (dropWhile ?z (take 1 ?ds @ strip_zeros (drop 1 ?ds)))"
      by (rule significant_digits_with_fraction[OF t dr]) (simp add: fmt_exponent_def)
    finally show ?thesis using split_bound[of 1] by simp
  qed
qed

lemma significant_digits_minus [simp]: "significant_digits (CHR ''-'' # s) = significant_digits s"
  by (simp add: significant_digits_def)

lemma significant_digits_fmt_g:
  assumes "0 < prec"
  shows "significant_digits (fmt_g prec v) \<le> prec"
proof (cases "v = 0")
  case True
  then show ?thesis by (simp add: fmt_g_def significant_digits_def)
next
  case False
  obtain m X where g: "g_digits prec \<bar>v\<bar> = (m, X)" by (cases "g_digits prec \<bar>v\<bar>")
  have a: "0 < \<bar>v\<bar>" using False by simp
  have b: "10 ^ (prec - 1) \<le> m \<and> m < 10 ^ prec" using g_digits_bounds[OF a assms g] .
  have m0: "0 \<le> m" using g_digits_nonneg[OF a g] .
  have "length (dec_digits m) = prec"
    using b assms by (intro length_dec_digits_eq) simp_all
  with significant_digits_g_body[OF m0, of prec X]
  have "significant_digits (g_body prec m X) \<le> prec" by simp
  with False g assms show ?thesis by (simp add: fmt_g_def Let_def)
qed


section \<open>The lines of a match file\<close>

text \<open>
  C3 says that every line written by \<^verbatim>\<open>match2file\<close> is
  \<^verbatim>\<open><cat_ind> <input_ind> <cosdist>\<close> with single spaces and a single newline, and that
  the cosdist field has 17 significant digits, so that the double is read back without
  loss. The field has 16: both write paths print it with \<^verbatim>\<open>%.16g\<close>. The wide sample
  engine, matched to a file with \<open>maxmatch = 1\<close> against the secondary at 60.04 degrees,
  writes the match of cosdist \<open>0.49939527841407133\<close> (a double: rounding it to a double
  changes nothing) as the line \<^verbatim>\<open>0 0 0.4993952784140713\<close>, which shows 16 significant
  digits where \<^verbatim>\<open>%.17g\<close> would print \<^verbatim>\<open>0.49939527841407133\<close>, and \<^verbatim>\<open>%lf\<close> reads this
  field back as the double below it. The unbounded path, on the engine with a tree over
  the primary, writes the same line.
\<close>

theorem match2file_cosdist_digits_counterexample:
  "snd (snd (PySMatchCat_match2file sample_eq2pix sample_eq2xyz_wide sample_engine_wide 1 0
        [(6004 / 100, 0)] True)) = Some [(0, 0, 8996305559104787 / 2 ^ 54)]
   \<and> snd (snd (PySMatchCat_match2file sample_eq2pix sample_eq2xyz_wide sample_engine_wide_tree 0 0
        [(6004 / 100, 0)] True)) = Some [(0, 0, 8996305559104787 / 2 ^ 54)]
   \<and> file_text [(0, 0, 8996305559104787 / 2 ^ 54)] = ''0 0 0.4993952784140713'' @ [CHR 0x0A]
   \<and> significant_digits ''0.4993952784140713'' = 16
   \<and> fmt_g 17 (8996305559104787 / 2 ^ 54) = ''0.49939527841407133''
   \<and> to_double (8996305559104787 / 2 ^ 54) = 8996305559104787 / 2 ^ 54
   \<and> scan_lf ''0.4993952784140713'' = Some (8996305559104786 / 2 ^ 54, [])
   \<and> (8996305559104786 / 2 ^ 54 :: rat) \<noteq> 8996305559104787 / 2 ^ 54"
  by code_simp

text \<open>
  C3, as the code has it. Every line written by \<^verbatim>\<open>match2file\<close>, in the unbounded and
  in the bounded mode, is \<^verbatim>\<open><cat_ind> <input_ind> <cosdist>\<close> ended by a single newline,
  with exactly one space between the fields: split at the newlines, the text of the file
  is one line for each triple written, in the order written, and nothing after the last
  newline; split at the spaces, a line is exactly its three fields. The two index fields
  are decimal digits after an optional minus sign. The cosdist field is printed by
  \<^verbatim>\<open>%.16g\<close> and shows at most 16 significant digits.
\<close>

theorem match2file_line_format:
  "\<forall>fobj. snd (snd (PySMatchCat_match2file eq2pix eq2xyz self mm ms sec can_open)) = Some fobj \<longrightarrow>
     split_at (CHR 0x0A) (file_text fobj) = map line_body fobj @ [[]]
     \<and> (\<forall>t \<in> set fobj.
          split_at (CHR '' '') (line_body t)
            = [fmt_ld (fst t), fmt_ld (fst (snd t)), fmt_g 16 (snd (snd t))]
          \<and> (\<forall>c \<in> set (fmt_ld (fst t)) \<union> set (fmt_ld (fst (snd t))). is_digit c \<or> c = CHR ''-'')
          \<and> significant_digits (fmt_g 16 (snd (snd t))) \<le> 16)"
  using fmt_ld_chars
  by (auto simp: split_lines_file_text split_fields_line_body significant_digits_fmt_g)

text \<open>
  The file of the wide sample engine matched with \<open>maxmatch = 1\<close> against the secondary
  at 60.04 degrees: one line of three fields, the last with 16 significant digits.
\<close>

theorem match2file_line_format_witness:
  "snd (snd (PySMatchCat_match2file sample_eq2pix sample_eq2xyz_wide sample_engine_wide 1 0
        [(6004 / 100, 0)] True)) = Some [(0, 0, 8996305559104787 / 2 ^ 54)]
   \<and> split_at (CHR 0x0A) (file_text [(0, 0, 8996305559104787 / 2 ^ 54)])
       = [''0 0 0.4993952784140713'', []]
   \<and> split_at (CHR '' '') (line_body (0, 0, 8996305559104787 / 2 ^ 54))
       = [''0'', ''0'', ''0.4993952784140713'']
   \<and> significant_digits (fmt_g 16 (8996305559104787 / 2 ^ 54)) \<le> 16"
proof -
  have h: "snd (snd (PySMatchCat_match2file sample_eq2pix sample_eq2xyz_wide sample_engine_wide 1 0
        [(6004 / 100, 0)] True)) = Some [(0, 0, 8996305559104787 / 2 ^ 54)]"
    by code_simp
  have b: "line_body (0, 0, 8996305559104787 / 2 ^ 54) = ''0 0 0.4993952784140713''"
    by code_simp
  have f: "fmt_ld 0 = ''0''" "fmt_g 16 (8996305559104787 / 2 ^ 54) = ''0.4993952784140713''"
    by code_simp+
  from match2file_line_format[rule_format, OF h] h b f show ?thesis by simp
qed

section \<open>Facts about reading a match file\<close>

subsection \<open>Runs of digits\<close>

lemma span_digits:
  assumes "\<forall>c \<in> set ds. is_digit c" "r = [] \<or> \<not> is_digit (hd r)"
  shows "takeWhile is_digit (ds @ r) = ds" and "dropWhile is_digit (ds @ r) = r"
proof -
  show "takeWhile is_digit (ds @ r) = ds"
  proof (cases r)
    case Nil
    with assms(1) show ?thesis by (simp add: takeWhile_eq_all_conv)
  next
    case (Cons c cs)
    with assms show ?thesis by (simp add: takeWhile_tail takeWhile_eq_all_conv)
  qed
  show "dropWhile is_digit (ds @ r) = r"
  proof (cases r)
    case Nil
    with assms(1) show ?thesis by (simp add: dropWhile_eq_Nil_conv)
  next
    case (Cons c cs)
    with assms show ?thesis by (simp add: dropWhile_append3 dropWhile_eq_Nil_conv)
  qed
qed

lemma digit_val_zero [simp]: "digit_val (CHR ''0'') = 0"
  by (simp add: digit_val_def)

lemma digits_val_Cons: "digits_val (c # cs) = digit_val c * 10 ^ length cs + digits_val cs"
  using digits_val_append[of "[c]" cs] by simp

lemma digits_val_zeros [simp]: "digits_val (replicate k (CHR ''0'')) = 0"
  by (induction k) (simp_all add: digits_val_Cons)

lemma digits_val_leading_zeros [simp]:
  "digits_val (replicate k (CHR ''0'') @ ds) = digits_val ds"
  by (simp add: digits_val_append)

lemma all_same_replicate: "\<forall>x \<in> set xs. x = a \<Longrightarrow> xs = replicate (length xs) a"
  by (induction xs) simp_all

lemma strip_zeros_decomp: "\<exists>k. fr = strip_zeros fr @ replicate k (CHR ''0'')"
proof -
  let ?z = "\<lambda>c. c = CHR ''0''"
  have "rev fr = takeWhile ?z (rev fr) @ dropWhile ?z (rev fr)" by simp
  then have "fr = rev (dropWhile ?z (rev fr)) @ rev (takeWhile ?z (rev fr))"
    by (metis rev_append rev_rev_ident)
  moreover have "takeWhile ?z (rev fr) = replicate (length (takeWhile ?z (rev fr))) (CHR ''0'')"
    by (rule all_same_replicate) (auto dest: set_takeWhileD)
  ultimately have "fr = strip_zeros fr @ replicate (length (takeWhile ?z (rev fr))) (CHR ''0'')"
    by (metis strip_zeros_def rev_replicate)
  then show ?thesis ..
qed

lemma digits_val_strip_zeros:
  "of_int (digits_val (ip @ strip_zeros fr)) * pow10 (ex - int (length (strip_zeros fr)))
   = (of_int (digits_val (ip @ fr)) :: rat) * pow10 (ex - int (length fr))"
proof -
  obtain k where k: "fr = strip_zeros fr @ replicate k (CHR ''0'')"
    using strip_zeros_decomp by blast
  let ?s = "strip_zeros fr"
  have l: "length fr = length ?s + k" by (subst k) simp
  have "digits_val (ip @ fr) = digits_val ((ip @ ?s) @ replicate k (CHR ''0''))"
    by (subst k) simp
  also have "\<dots> = digits_val (ip @ ?s) * 10 ^ k"
    by (simp only: digits_val_append[of "ip @ ?s"] digits_val_zeros length_replicate add_0_right)
  finally have v: "digits_val (ip @ fr) = digits_val (ip @ ?s) * 10 ^ k" .
  have "ex - int (length ?s) = (ex - int (length fr)) + int k" using l by simp
  then have "pow10 (ex - int (length ?s)) = pow10 (ex - int (length fr)) * 10 ^ k"
    by (simp only: pow10_add pow10_nat)
  with v show ?thesis by simp
qed

subsection \<open>Integers\<close>

lemma scan_sign_minus [simp]: "scan_sign (CHR ''-'' # r) = (True, r)"
  by (simp add: scan_sign_def)

lemma scan_sign_digit: "s \<noteq> [] \<Longrightarrow> is_digit (hd s) \<Longrightarrow> scan_sign s = (False, s)"
  by (cases s) (auto simp: scan_sign_def)

lemma dec_digits_hd_digit: "0 \<le> n \<Longrightarrow> is_digit (hd (dec_digits n @ r))"
  using dec_digits_digits[of n "hd (dec_digits n)"] dec_digits_nonempty[of n]
  by (cases "dec_digits n") auto

lemma scan_ld_dec_digits:
  assumes "0 \<le> n" "r = [] \<or> \<not> is_digit (hd r)"
  shows "scan_sign (dec_digits n @ r) = (False, dec_digits n @ r)"
    and "takeWhile is_digit (dec_digits n @ r) = dec_digits n"
    and "dropWhile is_digit (dec_digits n @ r) = r"
proof -
  have d: "\<forall>c \<in> set (dec_digits n). is_digit c" using assms(1) dec_digits_digits by blast
  show "scan_sign (dec_digits n @ r) = (False, dec_digits n @ r)"
    using dec_digits_hd_digit[OF assms(1), of r] by (intro scan_sign_digit) simp_all
  show "takeWhile is_digit (dec_digits n @ r) = dec_digits n"
    using span_digits(1)[OF d assms(2)] .
  show "dropWhile is_digit (dec_digits n @ r) = r"
    using span_digits(2)[OF d assms(2)] .
qed

lemma scan_ld_fmt_ld:
  assumes "LONG_MIN \<le> n" "n \<le> LONG_MAX" "r = [] \<or> \<not> is_digit (hd r)"
  shows "scan_ld (fmt_ld n @ r) = Some (n, r)"
proof (cases "n < 0")
  case True
  then have p: "0 \<le> - n" by simp
  show ?thesis
    using True assms(1,2) scan_ld_dec_digits[OF p assms(3)] digits_val_dec_digits[OF p]
    by (simp add: scan_ld_def fmt_ld_def Let_def)
next
  case False
  then have p: "0 \<le> n" by simp
  show ?thesis
    using False assms(1,2) scan_ld_dec_digits[OF p assms(3)] digits_val_dec_digits[OF p]
    by (simp add: scan_ld_def fmt_ld_def Let_def)
qed

subsection \<open>The cosdist field\<close>

lemma scan_exponent_none:
  "r = [] \<or> (hd r \<noteq> CHR ''e'' \<and> hd r \<noteq> CHR ''E'') \<Longrightarrow> scan_exponent r = (0, r)"
  by (cases r) (auto simp: scan_exponent_def)

lemma scan_exponent_fmt_exponent:
  assumes "r = [] \<or> \<not> is_digit (hd r)"
  shows "scan_exponent (fmt_exponent X @ r) = (X, r)"
proof -
  define ds where "ds = (if \<bar>X\<bar> < 10 then CHR ''0'' # dec_digits \<bar>X\<bar> else dec_digits \<bar>X\<bar>)"
  have a: "0 \<le> \<bar>X\<bar>" by simp
  have d: "\<forall>c \<in> set ds. is_digit c"
    using dec_digits_digits[OF a] by (auto simp: ds_def)
  have ne: "ds \<noteq> []" by (simp add: ds_def)
  have v: "digits_val ds = \<bar>X\<bar>"
    using digits_val_dec_digits[OF a] by (simp add: ds_def digits_val_Cons)
  have t: "takeWhile is_digit (ds @ r) = ds" "dropWhile is_digit (ds @ r) = r"
    using span_digits[OF d assms] by simp_all
  have f: "fmt_exponent X @ r = CHR ''e'' # (if X < 0 then CHR ''-'' else CHR ''+'') # ds @ r"
    by (simp add: fmt_exponent_def ds_def)
  show ?thesis
  proof (cases "X < 0")
    case True
    then show ?thesis using t v ne by (simp add: f scan_exponent_def scan_sign_def Let_def)
  next
    case False
    then show ?thesis using t v ne by (simp add: f scan_exponent_def scan_sign_def Let_def)
  qed
qed

lemma scan_lf_with_fraction:
  assumes ip: "\<forall>c \<in> set ip. is_digit c" "ip \<noteq> []"
    and fr: "\<forall>c \<in> set fr. is_digit c"
    and t: "t = [] \<or> (\<not> is_digit (hd t) \<and> hd t \<noteq> CHR ''.'')"
    and ex: "scan_exponent t = (ex, r)"
  shows "scan_lf (with_fraction ip fr @ t)
         = Some (to_double (of_int (digits_val (ip @ fr)) * pow10 (ex - int (length fr))), r)"
    and "scan_lf (CHR ''-'' # with_fraction ip fr @ t)
         = Some (to_double (- (of_int (digits_val (ip @ fr)) * pow10 (ex - int (length fr)))), r)"
proof -
  let ?s = "strip_zeros fr"
  have s: "\<forall>c \<in> set ?s. is_digit c" using fr strip_zeros_subset[of fr] by auto
  have val: "of_int (digits_val (ip @ ?s)) * pow10 (ex - int (length ?s))
             = (of_int (digits_val (ip @ fr)) :: rat) * pow10 (ex - int (length fr))"
    by (rule digits_val_strip_zeros)
  have body: "scan_lf (with_fraction ip fr @ t)
         = Some (to_double (of_int (digits_val (ip @ fr)) * pow10 (ex - int (length fr))), r)
       \<and> scan_lf (CHR ''-'' # with_fraction ip fr @ t)
         = Some (to_double (- (of_int (digits_val (ip @ fr)) * pow10 (ex - int (length fr)))), r)"
  proof (cases "?s = []")
    case True
    then have w: "with_fraction ip fr = ip" by (simp add: with_fraction_def)
    have sg: "scan_sign (ip @ t) = (False, ip @ t)"
      using ip by (intro scan_sign_digit) (cases ip; simp)+
    have nd: "t = [] \<or> \<not> is_digit (hd t)" using t by auto
    have sp: "takeWhile is_digit (ip @ t) = ip" "dropWhile is_digit (ip @ t) = t"
      using span_digits[OF ip(1) nd] by simp_all
    have fp: "scan_fraction t = ([], t)"
      using t by (cases t) (auto simp: scan_fraction_def)
    show ?thesis
      using val True ip(2) by (simp add: w scan_lf_def sg sp fp ex Let_def)
  next
    case False
    then have w: "with_fraction ip fr @ t = ip @ CHR ''.'' # ?s @ t"
      by (simp add: with_fraction_def Let_def)
    have sg: "scan_sign (ip @ CHR ''.'' # ?s @ t) = (False, ip @ CHR ''.'' # ?s @ t)"
      using ip by (intro scan_sign_digit) (cases ip; simp)+
    have sp: "takeWhile is_digit (ip @ CHR ''.'' # ?s @ t) = ip"
      "dropWhile is_digit (ip @ CHR ''.'' # ?s @ t) = CHR ''.'' # ?s @ t"
      using span_digits[OF ip(1), of "CHR ''.'' # ?s @ t"] by simp_all
    have nd: "t = [] \<or> \<not> is_digit (hd t)" using t by auto
    have sp2: "takeWhile is_digit (?s @ t) = ?s" "dropWhile is_digit (?s @ t) = t"
      using span_digits[OF s nd] by simp_all
    have fp: "scan_fraction (CHR ''.'' # ?s @ t) = (?s, t)"
      using sp2 by (simp add: scan_fraction_def)
    show ?thesis
      using val ip(2) by (simp add: w scan_lf_def sg sp fp ex Let_def)
  qed
  from body show "scan_lf (with_fraction ip fr @ t)
         = Some (to_double (of_int (digits_val (ip @ fr)) * pow10 (ex - int (length fr))), r)"
    by simp
  from body show "scan_lf (CHR ''-'' # with_fraction ip fr @ t)
         = Some (to_double (- (of_int (digits_val (ip @ fr)) * pow10 (ex - int (length fr)))), r)"
    by simp
qed

end
